theory Spec2Isabelle
  imports Complex_Main "HOL-Library.Char_ord" "HOL-Library.Sublist"
begin

section \<open>Python strings\<close>

text \<open>
  A Python \<open>str\<close> is modelled as a \<open>string\<close>, one \<open>char\<close> per code point; this covers
  the code points below 256. \<open>bytes\<close> are lists of \<open>char\<close> as well.
\<close>

type_synonym bytes = "char list"

definition newline :: char where
  "newline = CHR 0x0A"

definition is_upper_ascii :: "char \<Rightarrow> bool" where
  "is_upper_ascii c = (CHR ''A'' \<le> c \<and> c \<le> CHR ''Z'')"

definition is_lower_ascii :: "char \<Rightarrow> bool" where
  "is_lower_ascii c = (CHR ''a'' \<le> c \<and> c \<le> CHR ''z'')"

definition is_digit_ascii :: "char \<Rightarrow> bool" where
  "is_digit_ascii c = (CHR ''0'' \<le> c \<and> c \<le> CHR ''9'')"

text \<open>\<open>str.lower()\<close> on one code point below 256: A-Z and the Latin-1 capitals
  (U+00C0 to U+00DE without the multiplication sign U+00D7) move up by 32.\<close>

definition lower_char :: "char \<Rightarrow> char" where
  "lower_char c =
     (let n = (of_char c :: nat)
      in if (65 \<le> n \<and> n \<le> 90) \<or> (192 \<le> n \<and> n \<le> 222 \<and> n \<noteq> 215)
         then char_of (n + 32) else c)"

definition lower :: "string \<Rightarrow> string" where
  "lower s = map lower_char s"

text \<open>\<open>str.isspace()\<close> on one code point below 256: tab to carriage return, the
  separators U+001C to U+001F, space, U+0085 and U+00A0.\<close>

definition is_space :: "char \<Rightarrow> bool" where
  "is_space c =
     (let n = (of_char c :: nat)
      in (9 \<le> n \<and> n \<le> 13) \<or> (28 \<le> n \<and> n \<le> 32) \<or> n = 133 \<or> n = 160)"

text \<open>\<open>str.strip()\<close> without argument: whitespace goes from both ends.\<close>

definition strip :: "string \<Rightarrow> string" where
  "strip s = rev (dropWhile is_space (rev (dropWhile is_space s)))"

section \<open>Regular expressions\<close>

text \<open>
  The fragment of Python's \<open>re\<close> syntax that the address pattern uses: character
  classes, concatenation, \<open>+\<close>, \<open>{2,}\<close> and the anchor \<open>$\<close>. \<open>Never\<close> is the
  expression that matches nothing; only the matcher produces it.
\<close>

datatype rx =
    Never
  | Empty
  | Class "char \<Rightarrow> bool"
  | Seq rx rx
  | Or rx rx
  | Many rx

text \<open>The matcher reads the subject one character at a time and keeps what is left
  of the expression to match.\<close>

fun accepts_empty :: "rx \<Rightarrow> bool" where
  "accepts_empty Never = False"
| "accepts_empty Empty = True"
| "accepts_empty (Class P) = False"
| "accepts_empty (Seq r s) = (accepts_empty r \<and> accepts_empty s)"
| "accepts_empty (Or r s) = (accepts_empty r \<or> accepts_empty s)"
| "accepts_empty (Many r) = True"

fun residual :: "char \<Rightarrow> rx \<Rightarrow> rx" where
  "residual c Never = Never"
| "residual c Empty = Never"
| "residual c (Class P) = (if P c then Empty else Never)"
| "residual c (Seq r s) =
     (if accepts_empty r then Or (Seq (residual c r) s) (residual c s)
      else Seq (residual c r) s)"
| "residual c (Or r s) = Or (residual c r) (residual c s)"
| "residual c (Many r) = Seq (residual c r) (Many r)"

fun consume :: "rx \<Rightarrow> string \<Rightarrow> bool" where
  "consume r [] = accepts_empty r"
| "consume r (c # cs) = consume (residual c r) cs"

text \<open>The strings an expression stands for; the matcher is checked against it below.\<close>

fun lang :: "rx \<Rightarrow> string set" where
  "lang Never = {}"
| "lang Empty = {[]}"
| "lang (Class P) = {[c] | c. P c}"
| "lang (Seq r s) = {u @ v | u v. u \<in> lang r \<and> v \<in> lang s}"
| "lang (Or r s) = lang r \<union> lang s"
| "lang (Many r) = {concat ws | ws. set ws \<subseteq> lang r}"

text \<open>\<open>r+\<close>, \<open>r{2,}\<close> and a literal character.\<close>

definition plus_rx :: "rx \<Rightarrow> rx" where
  "plus_rx r = Seq r (Many r)"

definition at_least2 :: "rx \<Rightarrow> rx" where
  "at_least2 r = Seq r (Seq r (Many r))"

definition lit :: "char \<Rightarrow> rx" where
  "lit c = Class (\<lambda>x. x = c)"

text \<open>
  \<open>$\<close> without the MULTILINE flag matches at the end of the subject and also just
  before a newline that is the subject's last character. \<open>re.match\<close> anchors the
  match at the start and does not ask it to reach the end, so a pattern that ends in
  \<open>$\<close> leaves either nothing or that one newline unread.
\<close>

definition dollar :: rx where
  "dollar = Or Empty (lit newline)"

definition re_match :: "rx \<Rightarrow> string \<Rightarrow> bool" where
  "re_match r s = consume r s"

section \<open>EmailValidator\<close>

text \<open>The classes \<open>[a-zA-Z0-9._%+-]\<close>, \<open>[a-zA-Z0-9.-]\<close> and \<open>[a-zA-Z]\<close>.\<close>

definition local_class :: "char \<Rightarrow> bool" where
  "local_class c =
     (is_lower_ascii c \<or> is_upper_ascii c \<or> is_digit_ascii c \<or> c \<in> set ''._%+-'')"

definition domain_class :: "char \<Rightarrow> bool" where
  "domain_class c =
     (is_lower_ascii c \<or> is_upper_ascii c \<or> is_digit_ascii c \<or> c \<in> set ''.-'')"

definition letter_class :: "char \<Rightarrow> bool" where
  "letter_class c = (is_lower_ascii c \<or> is_upper_ascii c)"

text \<open>\<^verbatim>\<open>^[a-zA-Z0-9._%+-]+@[a-zA-Z0-9.-]+\.[a-zA-Z]{2,}$\<close>\<close>

definition address_core :: rx where
  "address_core =
     Seq (plus_rx (Class local_class))
      (Seq (lit CHR ''@'')
        (Seq (plus_rx (Class domain_class))
          (Seq (lit CHR ''.'') (at_least2 (Class letter_class)))))"

definition pattern :: rx where
  "pattern = Seq address_core dollar"

definition is_valid_email :: "string \<Rightarrow> bool" where
  "is_valid_email email = re_match pattern email"


text \<open>
  The address grammar as the specification words it: a local part, \<open>@\<close>, a domain and a
  final label of at least two letters after the last dot, with nothing before or after.
\<close>

definition matches_grammar :: "string \<Rightarrow> bool" where
  "matches_grammar s =
     (\<exists>l d t. s = l @ ''@'' @ d @ ''.'' @ t
        \<and> l \<noteq> [] \<and> list_all local_class l
        \<and> d \<noteq> [] \<and> list_all domain_class d
        \<and> 2 \<le> length t \<and> list_all letter_class t)"

text \<open>The final dot-separated label of a string: what follows its last dot.\<close>

definition final_label :: "string \<Rightarrow> string" where
  "final_label s = rev (takeWhile (\<lambda>c. c \<noteq> CHR ''.'') (rev s))"

definition has_final_label :: "string \<Rightarrow> bool" where
  "has_final_label s =
     (CHR ''.'' \<in> set s \<and> 2 \<le> length (final_label s) \<and> list_all letter_class (final_label s))"

text \<open>A string without the one newline that may end it.\<close>

definition chomp :: "string \<Rightarrow> string" where
  "chomp s = (if s \<noteq> [] \<and> last s = newline then butlast s else s)"

section \<open>Exceptions and observable events\<close>

text \<open>
  Every exception the program meets is an instance of \<open>Exception\<close>, which is what its
  handlers catch. \<open>LibraryError\<close> stands for one raised inside a library (smtplib, os,
  logging); the argument is the text \<open>str(e)\<close> gives.
\<close>

datatype exn =
    ValueError string
  | TypeError string
  | AttributeError string
  | KeyError string
  | UnboundLocalError string
  | LibraryError string

text \<open>
  The texts the program logs, prints and shows, one constructor for each format
  string of the source, with the values it interpolates.
\<close>

datatype msg =
    ReadingCsv \<comment> \<open>Reading CSV content\<close>
  | FoundValidEmails nat \<comment> \<open>Found n valid emails\<close>
  | SettingUpSmtp \<comment> \<open>Setting up SMTP connection\<close>
  | CreatingMessageFor string \<comment> \<open>Creating email message for: r\<close>
  | StartingProcess \<comment> \<open>Starting email sending process\<close>
  | EmailSentTo string \<comment> \<open>Email sent to: r\<close>
  | RetryingAttemptsRemaining string nat \<comment> \<open>Retrying email to r. Attempts remaining: n\<close>
  | InvalidEmailFound string \<comment> \<open>Invalid email found: r\<close>
  | ErrorReadingCsv exn \<comment> \<open>Error reading CSV: e\<close>
  | SmtpSetupFailed exn \<comment> \<open>SMTP setup failed: e\<close>
  | ErrorAttachingFile string exn \<comment> \<open>Error attaching file f: e\<close>
  | FailedToSend string exn \<comment> \<open>Failed to send email to r: e\<close>
  | MaxRetriesReached string \<comment> \<open>Max retries reached for r\<close>
  | SmtpEstablished \<comment> \<open>SMTP connection established successfully\<close>
  | EmailSentSuccessfully string \<comment> \<open>Email sent successfully to r\<close>
  | SentEmailTo string \<comment> \<open>Sent email to: r\<close>
  | RetryingEmail string nat \<comment> \<open>Retrying email to r... (n attempts remaining)\<close>
  | FailedAfterMaxRetries string \<comment> \<open>Failed to send email to r after maximum retries\<close>
  | CampaignCompleted \<comment> \<open>Email campaign completed!\<close>
  | PleaseUploadCsv \<comment> \<open>Please upload a CSV file\<close>
  | PleaseFillIn \<comment> \<open>Please fill in both subject and content\<close>
  | NoValidAddresses \<comment> \<open>No valid email addresses found in CSV\<close>
  | FoundValidAddresses nat \<comment> \<open>Found n valid email addresses\<close>
  | CampaignCompletedSuccessfully \<comment> \<open>Email campaign completed successfully!\<close>
  | AnErrorOccurred exn \<comment> \<open>An error occurred: e\<close>
  | CriticalError exn \<comment> \<open>Critical error: e\<close>

section \<open>Messages\<close>

text \<open>
  A MIME part is either the text part \<open>MIMEText(content, subtype)\<close> or an image part
  \<open>MIMEImage(data)\<close> with the subtype the library guessed from the data and the
  headers added to it, each a name, a value and its parameters.
\<close>

datatype part =
    MIMEText string string
  | MIMEImage bytes string "(string \<times> string \<times> (string \<times> string) list) list"

record message =
  headers :: "(string \<times> string) list"
  payload :: "part list"

text \<open>\<open>MIMEMultipart()\<close>, \<open>message[name] = value\<close>, \<open>message.attach(part)\<close> and
  \<open>part.add_header(name, value, **params)\<close>.\<close>

definition MIMEMultipart :: message where
  "MIMEMultipart =
     \<lparr>headers = [(''Content-Type'', ''multipart/mixed''), (''MIME-Version'', ''1.0'')],
      payload = []\<rparr>"

definition set_item :: "string \<Rightarrow> string \<Rightarrow> message \<Rightarrow> message" where
  "set_item name v m = m\<lparr>headers := headers m @ [(name, v)]\<rparr>"

definition attach :: "part \<Rightarrow> message \<Rightarrow> message" where
  "attach p m = m\<lparr>payload := payload m @ [p]\<rparr>"

fun add_header :: "string \<Rightarrow> string \<Rightarrow> (string \<times> string) list \<Rightarrow> part \<Rightarrow> part" where
  "add_header name v params (MIMEImage d st hs) = MIMEImage d st (hs @ [(name, v, params)])"
| "add_header name v params (MIMEText c st) = MIMEText c st"

text \<open>
  The events a run produces, in the order it produces them: lines printed by the debug
  logger, entries of the campaign log, entries of the root logger, what the page
  shows, the pauses and the calls made on the SMTP connection.
\<close>

datatype event =
    Stdout msg
  | LogInfo msg
  | LogWarning msg
  | LogError msg
  | RootLogError msg
  | ProgressBar rat
  | StatusEmpty
  | StatusText msg
  | StError msg
  | StInfo msg
  | StSuccess msg
  | Sleep nat
  | SmtpOpen string nat
  | SmtpStartTls
  | SmtpLogin string string
  | SmtpSendMessage message
  | SmtpQuit

section \<open>The libraries the program calls\<close>

text \<open>
  What the mail relay and the standard library answer is not the program's to decide:
  it is a parameter. \<open>'s\<close> is the state of an SMTP connection; each call returns the
  exception it raised, if any, and the connection after the call. \<open>image_what\<close> is the
  subtype \<open>MIMEImage\<close> guesses from the data, \<open>None\<close> when it cannot;
  \<open>logging_setup\<close> is the exception raised while the log file is set up, if any.
\<close>

record 's library =
  image_what :: "bytes \<Rightarrow> string option"
  logging_setup :: "exn option"
  smtp_open :: "string \<Rightarrow> nat \<Rightarrow> exn + 's"
  smtp_starttls :: "'s \<Rightarrow> exn option \<times> 's"
  smtp_login :: "'s \<Rightarrow> string \<Rightarrow> string \<Rightarrow> exn option \<times> 's"
  smtp_send_message :: "'s \<Rightarrow> message \<Rightarrow> exn option \<times> 's"
  smtp_quit :: "'s \<Rightarrow> exn option \<times> 's"

section \<open>EmailAutomation\<close>

text \<open>The object's fields: the debug flag of its \<open>DebugLogger\<close> and the connection,
  \<open>None\<close> until \<open>setup_smtp\<close> has opened one.\<close>

record 's automation =
  debug_mode :: bool
  smtp_server :: "'s option"

definition debug :: "'s automation \<Rightarrow> msg \<Rightarrow> event list" where
  "debug self m = (if debug_mode self then [Stdout m] else [])"

subsection \<open>read_csv_content\<close>

text \<open>
  The input is the table as \<open>csv.reader\<close> yields it, a list of rows of fields; decoding
  the bytes and splitting the text into fields are the standard library's.
  \<open>csv.DictReader\<close> takes the first row as \<open>fieldnames\<close> (\<open>None\<close> when there is no
  row at all), skips the rows without any field, and turns each other row into a
  dictionary: the field names zipped with the fields, a later column of the same name
  replacing an earlier one, and \<open>None\<close> for the columns the row is too short to reach.
\<close>

definition fieldnames :: "string list list \<Rightarrow> string list option" where
  "fieldnames table = (case table of [] \<Rightarrow> None | header # _ \<Rightarrow> Some header)"

definition dict_row :: "string list \<Rightarrow> string list \<Rightarrow> (string \<rightharpoonup> string option)" where
  "dict_row names row =
     map_of (rev (zip names (map Some row @ replicate (length names - length row) None)))"

text \<open>The loop over \<open>reader.fieldnames\<close>, left at the first column whose lowered name
  has \<open>email\<close> in it.\<close>

fun find_email_column :: "string list \<Rightarrow> string option" where
  "find_email_column [] = None"
| "find_email_column (column # rest) =
     (if sublist ''email'' (lower column) then Some column else find_email_column rest)"

text \<open>The loop over the rows, with the list of valid addresses so far; it returns the
  list, or the exception that left the loop, and the warnings logged on the way.\<close>

fun validate_rows ::
  "string list \<Rightarrow> string \<Rightarrow> string list list \<Rightarrow> string list \<Rightarrow> (exn + string list) \<times> event list"
where
  "validate_rows names email_column [] valid_emails = (Inr valid_emails, [])"
| "validate_rows names email_column (row # rest) valid_emails =
     (if row = [] then validate_rows names email_column rest valid_emails
      else case dict_row names row email_column of
          None \<Rightarrow> (Inl (KeyError email_column), [])
        | Some None \<Rightarrow> (Inl (AttributeError ''NoneType object has no attribute strip''), [])
        | Some (Some field) \<Rightarrow>
            (let email = strip field
             in if is_valid_email email
                then validate_rows names email_column rest (valid_emails @ [email])
                else (case validate_rows names email_column rest valid_emails of
                        (r, evs) \<Rightarrow> (r, LogWarning (InvalidEmailFound email) # evs))))"

definition read_csv_try :: "string list list \<Rightarrow> (exn + string list) \<times> event list" where
  "read_csv_try table =
     (case fieldnames table of
        None \<Rightarrow> (Inl (TypeError ''NoneType object is not iterable''), [])
      | Some names \<Rightarrow>
          (case find_email_column names of
             None \<Rightarrow> (Inl (ValueError ''No email column found in CSV''), [])
           | Some email_column \<Rightarrow>
               if email_column = [] then (Inl (ValueError ''No email column found in CSV''), [])
               else validate_rows names email_column (tl table) []))"

definition read_csv_content ::
  "'s automation \<Rightarrow> string list list \<Rightarrow> (exn + string list) \<times> event list"
where
  "read_csv_content self table =
     (case read_csv_try table of
        (Inl e, evs) \<Rightarrow> (Inl e, debug self ReadingCsv @ evs @ [LogError (ErrorReadingCsv e)])
      | (Inr valid_emails, evs) \<Rightarrow>
          (Inr valid_emails,
           debug self ReadingCsv @ evs @ debug self (FoundValidEmails (length valid_emails))))"

subsection \<open>setup_smtp\<close>

text \<open>\<open>self.smtp_server\<close> is assigned as soon as the connection is made, before
  \<open>starttls\<close> and \<open>login\<close>; an exception from any of the three is logged and raised
  again.\<close>

definition setup_smtp ::
  "'s library \<Rightarrow> 's automation \<Rightarrow> string \<Rightarrow> string \<Rightarrow> exn option \<times> 's automation \<times> event list"
where
  "setup_smtp lib self email password =
     (case smtp_open lib ''smtp.gmail.com'' 587 of
        Inl e \<Rightarrow>
          (Some e, self,
           debug self SettingUpSmtp @ [SmtpOpen ''smtp.gmail.com'' 587, LogError (SmtpSetupFailed e)])
      | Inr srv \<Rightarrow>
          (case smtp_starttls lib srv of
             (Some e, srv1) \<Rightarrow>
               (Some e, self\<lparr>smtp_server := Some srv1\<rparr>,
                debug self SettingUpSmtp
                  @ [SmtpOpen ''smtp.gmail.com'' 587, SmtpStartTls, LogError (SmtpSetupFailed e)])
           | (None, srv1) \<Rightarrow>
               (case smtp_login lib srv1 email password of
                  (Some e, srv2) \<Rightarrow>
                    (Some e, self\<lparr>smtp_server := Some srv2\<rparr>,
                     debug self SettingUpSmtp
                       @ [SmtpOpen ''smtp.gmail.com'' 587, SmtpStartTls, SmtpLogin email password,
                          LogError (SmtpSetupFailed e)])
                | (None, srv2) \<Rightarrow>
                    (None, self\<lparr>smtp_server := Some srv2\<rparr>,
                     debug self SettingUpSmtp
                       @ [SmtpOpen ''smtp.gmail.com'' 587, SmtpStartTls, SmtpLogin email password,
                          LogInfo SmtpEstablished]))))"

subsection \<open>create_message\<close>

text \<open>\<open>MIMEImage(file_content)\<close> raises \<open>TypeError\<close> when it cannot guess the subtype.\<close>

definition mime_image :: "'s library \<Rightarrow> bytes \<Rightarrow> exn + part" where
  "mime_image lib file_content =
     (case image_what lib file_content of
        None \<Rightarrow> Inl (TypeError ''Could not guess image MIME subtype'')
      | Some subtype \<Rightarrow> Inr (MIMEImage file_content subtype []))"

text \<open>The loop over the attachments; an exception is logged and raised again.\<close>

fun attach_files ::
  "'s library \<Rightarrow> (string \<times> bytes) list \<Rightarrow> message \<Rightarrow> (exn + message) \<times> event list"
where
  "attach_files lib [] message = (Inr message, [])"
| "attach_files lib ((file_name, file_content) # rest) message =
     (case mime_image lib file_content of
        Inl e \<Rightarrow> (Inl e, [LogError (ErrorAttachingFile file_name e)])
      | Inr img \<Rightarrow>
          attach_files lib rest
            (attach (add_header ''Content-Disposition'' ''attachment'' [(''filename'', file_name)] img)
               message))"

text \<open>The truth value of an optional list: \<open>None\<close> and the empty list are false.\<close>

definition truthy :: "'a list option \<Rightarrow> bool" where
  "truthy xs = (case xs of None \<Rightarrow> False | Some l \<Rightarrow> l \<noteq> [])"

definition create_message ::
  "'s library \<Rightarrow> 's automation \<Rightarrow> string \<Rightarrow> string \<Rightarrow> string \<Rightarrow> string
     \<Rightarrow> (string \<times> bytes) list option \<Rightarrow> (exn + message) \<times> event list"
where
  "create_message lib self sender recipient subject content attachments =
     (let message = MIMEMultipart;
          message = set_item ''From'' sender message;
          message = set_item ''To'' recipient message;
          message = set_item ''Subject'' subject message;
          message = attach (MIMEText content ''html'') message
      in if truthy attachments
         then (case attach_files lib (case attachments of None \<Rightarrow> [] | Some l \<Rightarrow> l) message of
                 (r, evs) \<Rightarrow> (r, debug self (CreatingMessageFor recipient) @ evs))
         else (Inr message, debug self (CreatingMessageFor recipient)))"

subsection \<open>send_emails\<close>

text \<open>\<open>self.smtp_server.send_message(message)\<close>: an attribute error when no connection
  was ever assigned, the relay's answer otherwise.\<close>

definition send_message ::
  "'s library \<Rightarrow> 's automation \<Rightarrow> message \<Rightarrow> exn option \<times> 's automation \<times> event list"
where
  "send_message lib self message =
     (case smtp_server self of
        None \<Rightarrow> (Some (AttributeError ''NoneType object has no attribute send_message''), self, [])
      | Some srv \<Rightarrow>
          (case smtp_send_message lib srv message of
             (r, srv1) \<Rightarrow> (r, self\<lparr>smtp_server := Some srv1\<rparr>, [SmtpSendMessage message])))"

text \<open>One attempt, the first two statements of the \<open>try\<close> block: build the message,
  then send it. The result is the exception that reached the handler, if any.\<close>

definition attempt ::
  "'s library \<Rightarrow> 's automation \<Rightarrow> string \<Rightarrow> string \<Rightarrow> string \<Rightarrow> string
     \<Rightarrow> (string \<times> bytes) list option \<Rightarrow> exn option \<times> 's automation \<times> event list"
where
  "attempt lib self sender email subject content attachments =
     (case create_message lib self sender email subject content attachments of
        (Inl e, evs) \<Rightarrow> (Some e, self, evs)
      | (Inr message, evs) \<Rightarrow>
          (case send_message lib self message of
             (r, self1, evs1) \<Rightarrow> (r, self1, evs @ evs1)))"

text \<open>
  The \<open>while retries > 0\<close> loop for the recipient at position \<open>idx\<close>, with \<open>len\<close>
  for \<open>len(emails)\<close>. The argument \<open>Suc retries\<close> is the counter on entry to the body; after a failure the
  handler decrements it and the loop goes on with \<open>retries\<close>. The progress fraction
  \<open>(idx + 1) / len(emails)\<close> is kept as an exact rational.
\<close>

fun send_with_retries ::
  "'s library \<Rightarrow> string \<Rightarrow> string \<Rightarrow> string \<Rightarrow> string \<Rightarrow> (string \<times> bytes) list option
     \<Rightarrow> nat \<Rightarrow> nat \<Rightarrow> nat \<Rightarrow> 's automation \<Rightarrow> event list \<times> 's automation"
where
  "send_with_retries lib sender email subject content attachments idx len 0 self = ([], self)"
| "send_with_retries lib sender email subject content attachments idx len (Suc retries) self =
     (case attempt lib self sender email subject content attachments of
        (None, self1, evs) \<Rightarrow>
          (evs @ [LogInfo (EmailSentSuccessfully email)] @ debug self (EmailSentTo email)
             @ [StatusText (SentEmailTo email),
                ProgressBar (of_nat (idx + 1) / of_nat len),
                Sleep 1],
           self1)
      | (Some e, self1, evs) \<Rightarrow>
          (case send_with_retries lib sender email subject content attachments idx len
                  retries self1 of
             (later, self2) \<Rightarrow>
               (evs @ [LogError (FailedToSend email e)]
                  @ (if retries > 0
                     then debug self (RetryingAttemptsRemaining email retries)
                            @ [StatusText (RetryingEmail email retries), Sleep 2]
                     else [LogError (MaxRetriesReached email),
                           StatusText (FailedAfterMaxRetries email)])
                  @ later,
                self2)))"

text \<open>The \<open>for idx, email in enumerate(emails)\<close> loop, from position \<open>idx\<close> on.\<close>

fun for_each_email ::
  "'s library \<Rightarrow> string \<Rightarrow> string \<Rightarrow> string \<Rightarrow> (string \<times> bytes) list option
     \<Rightarrow> nat \<Rightarrow> nat \<Rightarrow> string list \<Rightarrow> 's automation \<Rightarrow> event list \<times> 's automation"
where
  "for_each_email lib sender subject content attachments len idx [] self = ([], self)"
| "for_each_email lib sender subject content attachments len idx (email # rest) self =
     (case send_with_retries lib sender email subject content attachments idx len 3 self of
        (evs, self1) \<Rightarrow>
          (case for_each_email lib sender subject content attachments len (idx + 1) rest self1 of
             (later, self2) \<Rightarrow> (evs @ later, self2)))"

definition send_emails ::
  "'s library \<Rightarrow> 's automation \<Rightarrow> string \<Rightarrow> string list \<Rightarrow> string \<Rightarrow> string
     \<Rightarrow> (string \<times> bytes) list option \<Rightarrow> event list \<times> 's automation"
where
  "send_emails lib self sender emails subject content attachments =
     (case for_each_email lib sender subject content attachments (length emails) 0 emails self of
        (evs, self1) \<Rightarrow>
          (debug self StartingProcess @ [ProgressBar 0, StatusEmpty] @ evs
             @ [StatusText CampaignCompleted],
           self1))"

section \<open>main\<close>

text \<open>
  What the page holds when the button is pressed: the debug checkbox, the uploaded
  table (\<open>None\<close> without an upload), the uploaded attachments as pairs of name and
  content, the subject and the body.
\<close>

record form =
  debug_box :: bool
  csv_file :: "string list list option"
  attachment_files :: "(string \<times> bytes) list"
  subject_input :: string
  content_input :: string

definition sender_email :: string where
  "sender_email = ''datanyx.ai@gmail.com''"

text \<open>
  The \<open>try\<close> block of \<open>main\<close>. It gives the exception that left the block (\<open>None\<close>
  when it ran to its end or returned), the local variable \<open>automation\<close> (\<open>None\<close> while
  it is unbound) and the events. The password is a string literal in the source and a
  parameter here.
\<close>

definition main_try ::
  "'s library \<Rightarrow> string \<Rightarrow> form \<Rightarrow> exn option \<times> 's automation option \<times> event list"
where
  "main_try lib sender_password inp =
     (case csv_file inp of
        None \<Rightarrow> (None, None, [StError PleaseUploadCsv])
      | Some csv_content \<Rightarrow>
          if subject_input inp = [] \<or> content_input inp = []
          then (None, None, [StError PleaseFillIn])
          else (case logging_setup lib of
             Some e \<Rightarrow> (Some e, None, [])
           | None \<Rightarrow>
               (let automation = \<lparr>debug_mode = debug_box inp, smtp_server = None\<rparr>
                in case read_csv_content automation csv_content of
                  (Inl e, evs) \<Rightarrow> (Some e, Some automation, evs)
                | (Inr emails, evs) \<Rightarrow>
                    if emails = []
                    then (None, Some automation, evs @ [StError NoValidAddresses])
                    else (case setup_smtp lib automation sender_email sender_password of
                       (Some e, automation1, evs1) \<Rightarrow>
                         (Some e, Some automation1,
                          evs @ [StInfo (FoundValidAddresses (length emails))] @ evs1)
                     | (None, automation1, evs1) \<Rightarrow>
                         (case send_emails lib automation1 sender_email emails
                                 (subject_input inp) (content_input inp)
                                 (Some (attachment_files inp)) of
                            (evs2, automation2) \<Rightarrow>
                              (None, Some automation2,
                               evs @ [StInfo (FoundValidAddresses (length emails))] @ evs1 @ evs2
                                 @ [StSuccess CampaignCompletedSuccessfully]))))))"

text \<open>The handler \<open>except Exception as e\<close>.\<close>

definition main_except :: "exn option \<Rightarrow> event list" where
  "main_except raised =
     (case raised of
        None \<Rightarrow> []
      | Some e \<Rightarrow> [StError (AnErrorOccurred e), RootLogError (CriticalError e)])"

text \<open>The \<open>finally\<close> block reads \<open>automation.smtp_server\<close>: an unbound local variable
  raises, a connection is quit, \<open>None\<close> is left alone.\<close>

definition main_finally ::
  "'s library \<Rightarrow> 's automation option \<Rightarrow> exn option \<times> event list"
where
  "main_finally lib automation =
     (case automation of
        None \<Rightarrow> (Some (UnboundLocalError ''automation''), [])
      | Some a \<Rightarrow>
          (case smtp_server a of
             None \<Rightarrow> (None, [])
           | Some srv \<Rightarrow> (fst (smtp_quit lib srv), [SmtpQuit])))"

text \<open>Pressing the button: the exception that leaves \<open>main\<close>, if any, and the events.\<close>

definition main :: "'s library \<Rightarrow> string \<Rightarrow> form \<Rightarrow> exn option \<times> event list" where
  "main lib sender_password inp =
     (case main_try lib sender_password inp of
        (raised, automation, evs) \<Rightarrow>
          (case main_finally lib automation of
             (raised1, evs1) \<Rightarrow> (raised1, evs @ main_except raised @ evs1)))"

section \<open>Reading a run\<close>

text \<open>
  What the properties below speak of, read off the events of a run: the progress
  fractions; the outcome of each recipient, which the log records as sent (\<open>True\<close>)
  or as given up after the last retry (\<open>False\<close>); and the rhythm of a run, its
  attempts, each logged as sent or as failed, and its pauses.
\<close>

fun progress_event :: "event \<Rightarrow> rat list" where
  "progress_event (ProgressBar v) = [v]"
| "progress_event _ = []"

definition progress_of :: "event list \<Rightarrow> rat list" where
  "progress_of evs = concat (map progress_event evs)"

fun outcome_event :: "event \<Rightarrow> (string \<times> bool) list" where
  "outcome_event (LogInfo (EmailSentSuccessfully r)) = [(r, True)]"
| "outcome_event (LogError (MaxRetriesReached r)) = [(r, False)]"
| "outcome_event _ = []"

definition outcomes :: "event list \<Rightarrow> (string \<times> bool) list" where
  "outcomes evs = concat (map outcome_event evs)"

datatype pace = Sent | Failed | Pause nat

fun pace_event :: "event \<Rightarrow> pace list" where
  "pace_event (LogInfo (EmailSentSuccessfully r)) = [Sent]"
| "pace_event (LogError (FailedToSend r e)) = [Failed]"
| "pace_event (Sleep n) = [Pause n]"
| "pace_event _ = []"

definition pace_of :: "event list \<Rightarrow> pace list" where
  "pace_of evs = concat (map pace_event evs)"

fun send_event :: "event \<Rightarrow> message list" where
  "send_event (SmtpSendMessage m) = [m]"
| "send_event _ = []"

definition sends_of :: "event list \<Rightarrow> message list" where
  "sends_of evs = concat (map send_event evs)"

text \<open>Every attempt logged as sent is followed at once by a pause of one unit.\<close>

fun paused_after_sent :: "pace list \<Rightarrow> bool" where
  "paused_after_sent [] = True"
| "paused_after_sent (Sent # rest) =
     (case rest of Pause n # later \<Rightarrow> n = 1 \<and> paused_after_sent later | _ \<Rightarrow> False)"
| "paused_after_sent (p # rest) = paused_after_sent rest"

section \<open>A library that follows a script\<close>

text \<open>
  For concrete runs: a relay whose connection state is the list of its answers to
  come, \<open>True\<close> to accept a message and \<open>False\<close> to refuse it, accepting once the
  list is used up; and an image check that knows the PNG signature only.
\<close>

definition png_magic :: bytes where
  "png_magic = [CHR 0x89, CHR ''P'', CHR ''N'', CHR ''G'']"

definition scripted :: "bool list \<Rightarrow> bool list library" where
  "scripted script =
     \<lparr>image_what = (\<lambda>d. if prefix png_magic d then Some ''png'' else None),
      logging_setup = None,
      smtp_open = (\<lambda>host port. Inr script),
      smtp_starttls = (\<lambda>s. (None, s)),
      smtp_login = (\<lambda>s user password. (None, s)),
      smtp_send_message =
        (\<lambda>s m. case s of
                  [] \<Rightarrow> (None, [])
                | ok # rest \<Rightarrow> (if ok then None else Some (LibraryError ''refused''), rest)),
      smtp_quit = (\<lambda>s. (None, s))\<rparr>"

text \<open>
  A column name contains \<open>email\<close> without regard to case, in the words of the
  specification: some five characters in a row spell it, each one the letter itself or
  its capital, which lies 32 below it.
\<close>

definition any_case :: "string \<Rightarrow> string \<Rightarrow> bool" where
  "any_case w t = list_all2 (\<lambda>x y. x = y \<or> of_char x + 32 = (of_char y :: nat)) w t"

definition names_email :: "string \<Rightarrow> bool" where
  "names_email column = (\<exists>pre w suf. column = pre @ w @ suf \<and> any_case w ''email'')"

text \<open>A relay that refuses every message.\<close>

definition refusing :: "unit library" where
  "refusing =
     \<lparr>image_what = (\<lambda>d. None),
      logging_setup = None,
      smtp_open = (\<lambda>host port. Inr ()),
      smtp_starttls = (\<lambda>s. (None, s)),
      smtp_login = (\<lambda>s user password. (None, s)),
      smtp_send_message = (\<lambda>s m. (Some (LibraryError ''refused''), s)),
      smtp_quit = (\<lambda>s. (None, s))\<rparr>"

text \<open>
  The data rows of a table, those after the header that have a field at all, and the
  stripped value a row holds in a column, \<open>None\<close> when the row does not reach it.
\<close>

definition data_rows :: "string list list \<Rightarrow> string list list" where
  "data_rows table = filter (\<lambda>row. row \<noteq> []) (tl table)"

definition email_field :: "string list \<Rightarrow> string \<Rightarrow> string list \<Rightarrow> string option" where
  "email_field names column row =
     (case dict_row names row column of
        Some (Some field) \<Rightarrow> Some (strip field)
      | _ \<Rightarrow> None)"

text \<open>
  The steps of a run with their recipients: an attempt for a recipient, logged as sent
  (\<open>True\<close>) or as failed, and a pause. In the words of the specification a recipient
  is either sent after fewer than three failed attempts, each followed by a pause of 2,
  with a pause of 1 after the send, or given up after three failed attempts with a
  pause of 2 between them.
\<close>

datatype step = Tried string bool | Waited nat

fun step_event :: "event \<Rightarrow> step list" where
  "step_event (LogInfo (EmailSentSuccessfully r)) = [Tried r True]"
| "step_event (LogError (FailedToSend r e)) = [Tried r False]"
| "step_event (Sleep n) = [Waited n]"
| "step_event _ = []"

definition steps_of :: "event list \<Rightarrow> step list" where
  "steps_of evs = concat (map step_event evs)"

definition sent_after :: "string \<Rightarrow> nat \<Rightarrow> step list" where
  "sent_after r k = concat (replicate k [Tried r False, Waited 2]) @ [Tried r True, Waited 1]"

definition given_up :: "string \<Rightarrow> step list" where
  "given_up r = [Tried r False, Waited 2, Tried r False, Waited 2, Tried r False]"

definition recipient_steps :: "string \<Rightarrow> nat \<Rightarrow> step list" where
  "recipient_steps r k = (if k < 3 then sent_after r k else given_up r)"

section \<open>Properties\<close>

subsection \<open>The matcher decides the language\<close>

lemma accepts_empty_lang: "accepts_empty r \<longleftrightarrow> [] \<in> lang r"
proof (induction r)
  case (Many r)
  have "concat [] \<in> lang (Many r)"
    unfolding lang.simps by (rule CollectI, rule exI [of _ "[]"]) simp
  then show ?case by simp
qed auto

lemma many_cons:
  "c # w \<in> lang (Many r) \<longleftrightarrow> (\<exists>u v. w = u @ v \<and> c # u \<in> lang r \<and> v \<in> lang (Many r))"
proof
  assume "c # w \<in> lang (Many r)"
  then obtain ws where ws: "c # w = concat ws" "set ws \<subseteq> lang r"
    by auto
  then show "\<exists>u v. w = u @ v \<and> c # u \<in> lang r \<and> v \<in> lang (Many r)"
  proof (induction ws)
    case Nil
    then show ?case by simp
  next
    case (Cons x xs)
    show ?case
    proof (cases x)
      case Nil
      with Cons show ?thesis by simp
    next
      case (Cons a u)
      with Cons.prems have "a = c" "w = u @ concat xs" "c # u \<in> lang r" "set xs \<subseteq> lang r"
        by auto
      then show ?thesis by auto
    qed
  qed
next
  assume "\<exists>u v. w = u @ v \<and> c # u \<in> lang r \<and> v \<in> lang (Many r)"
  then obtain u ws where "w = u @ concat ws" "c # u \<in> lang r" "set ws \<subseteq> lang r"
    by auto
  then have "c # w = concat ((c # u) # ws) \<and> set ((c # u) # ws) \<subseteq> lang r"
    by simp
  then show "c # w \<in> lang (Many r)"
    unfolding lang.simps by blast
qed

lemma residual_lang: "w \<in> lang (residual c r) \<longleftrightarrow> c # w \<in> lang r"
proof (induction r arbitrary: w)
  case (Seq r s)
  then show ?case
    by (auto simp: accepts_empty_lang Cons_eq_append_conv)
next
  case (Many r)
  then show ?case
    by (simp only: many_cons residual.simps lang.simps(4)) auto
qed auto

lemma consume_lang: "consume r s \<longleftrightarrow> s \<in> lang r"
  by (induction s arbitrary: r) (simp_all add: accepts_empty_lang residual_lang)

lemma lang_class_seq: "w \<in> lang (Seq (Class P) r) \<longleftrightarrow> (\<exists>c v. w = c # v \<and> P c \<and> v \<in> lang r)"
proof
  assume "w \<in> lang (Seq (Class P) r)"
  then obtain u v where "w = u @ v" "u \<in> lang (Class P)" "v \<in> lang r"
    by auto
  then show "\<exists>c v. w = c # v \<and> P c \<and> v \<in> lang r"
    by auto
next
  assume "\<exists>c v. w = c # v \<and> P c \<and> v \<in> lang r"
  then obtain c v where "w = [c] @ v" "[c] \<in> lang (Class P)" "v \<in> lang r"
    by auto
  then show "w \<in> lang (Seq (Class P) r)"
    unfolding lang.simps(4) by blast
qed

lemma lang_many_class: "w \<in> lang (Many (Class P)) \<longleftrightarrow> list_all P w"
proof (induction w)
  case Nil
  then show ?case using accepts_empty_lang [of "Many (Class P)"] by simp
next
  case (Cons c w)
  have "c # w \<in> lang (Many (Class P)) \<longleftrightarrow> P c \<and> w \<in> lang (Many (Class P))"
    by (simp only: many_cons [of c w]) auto
  with Cons show ?case by simp
qed

lemma lang_plus_class: "w \<in> lang (plus_rx (Class P)) \<longleftrightarrow> w \<noteq> [] \<and> list_all P w"
  unfolding plus_rx_def lang_class_seq lang_many_class by (cases w) auto

lemma lang_at_least2_class:
  "w \<in> lang (at_least2 (Class P)) \<longleftrightarrow> 2 \<le> length w \<and> list_all P w"
  unfolding at_least2_def lang_class_seq lang_many_class by (cases w; cases "tl w") auto

lemma lang_lit_seq: "w \<in> lang (Seq (lit c) r) \<longleftrightarrow> (\<exists>v. w = c # v \<and> v \<in> lang r)"
  unfolding lit_def lang_class_seq by auto

lemma lang_seq: "w \<in> lang (Seq r s) \<longleftrightarrow> (\<exists>u v. w = u @ v \<and> u \<in> lang r \<and> v \<in> lang s)"
  by auto

lemma lang_address_core: "s \<in> lang address_core \<longleftrightarrow> matches_grammar s"
proof -
  let ?tail = "Seq (lit CHR ''.'') (at_least2 (Class letter_class))"
  let ?dom = "Seq (plus_rx (Class domain_class)) ?tail"
  have tail: "w \<in> lang ?tail \<longleftrightarrow> (\<exists>t. w = ''.'' @ t \<and> 2 \<le> length t \<and> list_all letter_class t)"
    for w
    unfolding lang_lit_seq lang_at_least2_class by auto
  have dom: "w \<in> lang ?dom \<longleftrightarrow> (\<exists>d t. w = d @ ''.'' @ t \<and> d \<noteq> [] \<and> list_all domain_class d
      \<and> 2 \<le> length t \<and> list_all letter_class t)" for w
    unfolding lang_seq [of w "plus_rx (Class domain_class)"] lang_plus_class tail by blast
  have at: "w \<in> lang (Seq (lit CHR ''@'') ?dom) \<longleftrightarrow> (\<exists>d t. w = ''@'' @ d @ ''.'' @ t \<and> d \<noteq> []
      \<and> list_all domain_class d \<and> 2 \<le> length t \<and> list_all letter_class t)" for w
    unfolding lang_lit_seq dom by auto
  show ?thesis
    unfolding address_core_def matches_grammar_def
      lang_seq [of s "plus_rx (Class local_class)"] lang_plus_class at
    by blast
qed

lemma is_valid_email_iff:
  "is_valid_email s \<longleftrightarrow> matches_grammar s \<or> (\<exists>t. s = t @ [newline] \<and> matches_grammar t)"
proof -
  have "v \<in> lang dollar \<longleftrightarrow> v = [] \<or> v = [newline]" for v
    by (auto simp: dollar_def lit_def)
  then have "s \<in> lang pattern \<longleftrightarrow> (\<exists>u v. s = u @ v \<and> matches_grammar u \<and> (v = [] \<or> v = [newline]))"
    unfolding pattern_def lang_seq lang_address_core by simp
  then show ?thesis
    unfolding is_valid_email_def re_match_def consume_lang by auto
qed

subsection \<open>The address validator\<close>

lemma letter_not_special:
  "letter_class c \<Longrightarrow> c \<noteq> CHR ''.'' \<and> c \<noteq> newline \<and> c \<noteq> CHR ''@''"
  by (auto simp: letter_class_def is_lower_ascii_def is_upper_ascii_def newline_def)

lemma grammar_has_at: "matches_grammar s \<Longrightarrow> CHR ''@'' \<in> set s"
  by (auto simp: matches_grammar_def)

lemma grammar_final_label: "matches_grammar s \<Longrightarrow> has_final_label s"
proof -
  assume "matches_grammar s"
  then obtain l d t where s: "s = l @ ''@'' @ d @ ''.'' @ t"
    and t: "2 \<le> length t" "list_all letter_class t"
    by (auto simp: matches_grammar_def)
  have "\<forall>c\<in>set (rev t). c \<noteq> CHR ''.''"
    using t(2) letter_not_special by (auto simp: list_all_iff)
  then have "takeWhile (\<lambda>c. c \<noteq> CHR ''.'') (rev t @ CHR ''.'' # rev (l @ ''@'' @ d)) = rev t"
    using takeWhile_append2 [of "rev t" "\<lambda>c. c \<noteq> CHR ''.''" "CHR ''.'' # rev (l @ ''@'' @ d)"]
    by simp
  then have "final_label s = t"
    by (simp add: final_label_def s)
  with t show "has_final_label s"
    by (simp add: has_final_label_def s)
qed

lemma grammar_chomp: "matches_grammar s \<Longrightarrow> chomp s = s"
proof -
  assume "matches_grammar s"
  then obtain p t where s: "s = p @ t" and t: "2 \<le> length t" "list_all letter_class t"
    unfolding matches_grammar_def by (metis append.assoc)
  from t have "t \<noteq> []" by auto
  then have "last s = last t" "last t \<in> set t"
    by (simp_all add: s)
  with t(2) have "last s \<noteq> newline"
    using letter_not_special by (auto simp: list_all_iff)
  then show "chomp s = s"
    by (simp add: chomp_def)
qed

lemma valid_if_grammar: "matches_grammar s \<Longrightarrow> is_valid_email s"
  by (simp add: is_valid_email_iff)

lemma invalid_without_at: "CHR ''@'' \<notin> set s \<Longrightarrow> \<not> is_valid_email s"
  by (auto simp: is_valid_email_iff dest: grammar_has_at)

lemma invalid_without_final_label: "\<not> has_final_label (chomp s) \<Longrightarrow> \<not> is_valid_email s"
proof
  assume no: "\<not> has_final_label (chomp s)" and "is_valid_email s"
  then consider "matches_grammar s" | t where "s = t @ [newline]" "matches_grammar t"
    by (auto simp: is_valid_email_iff)
  then show False
  proof cases
    case 1
    with no show False
      by (simp add: grammar_chomp grammar_final_label)
  next
    case 2
    then have "chomp s = t"
      by (simp add: chomp_def)
    with 2 no show False
      by (simp add: grammar_final_label)
  qed
qed

text \<open>
  Claim C6. Every string of the address grammar is accepted, and a string without \<open>@\<close>
  is rejected (\<open>valid_if_grammar\<close>, \<open>invalid_without_at\<close>). A string whose final
  dot-separated label is not made of at least two letters is rejected only once the
  newline that may end it is set aside (\<open>invalid_without_final_label\<close>): the anchor
  \<open>$\<close> lets one trailing newline through, so the address below is accepted although
  its final label, \<open>co\<close> followed by a newline, is not a label of letters.
\<close>

theorem validator_accepts_trailing_newline:
  "is_valid_email (''a@b.co'' @ [newline]) \<and> \<not> has_final_label (''a@b.co'' @ [newline])"
  by code_simp

subsection \<open>The message builder\<close>

lemma attach_files_events:
  "attach_files lib atts m = (r, evs) \<Longrightarrow>
     (case r of
        Inr m' \<Rightarrow> evs = []
      | Inl e \<Rightarrow> \<exists>f \<in> fst ` set atts. evs = [LogError (ErrorAttachingFile f e)])"
proof (induction atts arbitrary: m)
  case Nil
  then show ?case by auto
next
  case (Cons a atts)
  obtain f d where a: "a = (f, d)" by (cases a)
  show ?case
  proof (cases "mime_image lib d")
    case (Inl e)
    with Cons.prems a show ?thesis by auto
  next
    case (Inr img)
    with Cons.prems a have "attach_files lib atts
        (attach (add_header ''Content-Disposition'' ''attachment'' [(''filename'', f)] img) m) = (r, evs)"
      by simp
    from Cons.IH [OF this] show ?thesis
      by (auto split: sum.splits)
  qed
qed

text \<open>
  Claim C10. Building with an empty attachment list gives what building without an
  attachment list gives, and that message has one part, the HTML body.
\<close>

theorem empty_attachment_list_same_as_none:
  "create_message lib self sender recipient subject content (Some [])
     = create_message lib self sender recipient subject content None
   \<and> (\<exists>m. fst (create_message lib self sender recipient subject content None) = Inr m
          \<and> payload m = [MIMEText content ''html''])"
  by (simp add: create_message_def truthy_def MIMEMultipart_def set_item_def attach_def)

text \<open>
  Claim C9, as stated: building has no effect beyond the message it returns. With debug
  mode on the builder prints its debug line.
\<close>

theorem create_message_debug_line_counterexample:
  "snd (create_message (scripted []) \<lparr>debug_mode = True, smtp_server = None\<rparr>
          ''me@x.com'' ''a@x.com'' ''Hello'' ''<p>Hi</p>'' None) \<noteq> []"
  by (simp add: create_message_def truthy_def debug_def)

text \<open>
  Claim C9, amended. For a fixed sender, recipient, subject, body and attachment list the
  builder returns the same result, a message or an error, whatever the state of the
  object it is called on; two calls under the same debug flag are equal in their log
  output too. It returns no new state of the object or of the connection, and all it
  emits is its debug line, when debug mode is on, followed by one entry in the error
  log when an attachment cannot be encoded.
\<close>

theorem create_message_deterministic:
  "fst (create_message lib self sender recipient subject content attachments)
     = fst (create_message lib self' sender recipient subject content attachments)
   \<and> (debug_mode self = debug_mode self' \<longrightarrow>
        create_message lib self sender recipient subject content attachments
          = create_message lib self' sender recipient subject content attachments)
   \<and> (\<exists>errs. snd (create_message lib self sender recipient subject content attachments)
               = debug self (CreatingMessageFor recipient) @ errs
          \<and> (case fst (create_message lib self sender recipient subject content attachments) of
                Inr m \<Rightarrow> errs = []
              | Inl e \<Rightarrow> \<exists>f. errs = [LogError (ErrorAttachingFile f e)]))"
proof -
  let ?m = "attach (MIMEText content ''html'')
     (set_item ''Subject'' subject (set_item ''To'' recipient (set_item ''From'' sender MIMEMultipart)))"
  let ?l = "case attachments of None \<Rightarrow> [] | Some l \<Rightarrow> l"
  obtain r evs where af: "attach_files lib ?l ?m = (r, evs)"
    by (cases "attach_files lib ?l ?m")
  have shape: "create_message lib s sender recipient subject content attachments
      = (if truthy attachments then (r, debug s (CreatingMessageFor recipient) @ evs)
         else (Inr ?m, debug s (CreatingMessageFor recipient)))" for s :: "'a automation"
    by (simp add: create_message_def af Let_def)
  have evs: "case r of Inr m' \<Rightarrow> evs = [] | Inl e \<Rightarrow> \<exists>f. evs = [LogError (ErrorAttachingFile f e)]"
    using attach_files_events [OF af] by (auto split: sum.splits)
  show ?thesis
    unfolding shape [of self] shape [of self'] using evs
    by (auto simp: debug_def split: sum.splits)
qed

theorem create_message_deterministic_witness:
  "debug_mode \<lparr>debug_mode = True, smtp_server = (None :: bool list option)\<rparr>
     = debug_mode \<lparr>debug_mode = True, smtp_server = Some [False]\<rparr>
   \<and> create_message (scripted []) \<lparr>debug_mode = True, smtp_server = None\<rparr>
       ''me@x.com'' ''a@x.com'' ''Hello'' ''<p>Hi</p>'' (Some [(''logo.png'', png_magic)])
     = create_message (scripted []) \<lparr>debug_mode = True, smtp_server = Some [False]\<rparr>
       ''me@x.com'' ''a@x.com'' ''Hello'' ''<p>Hi</p>'' (Some [(''logo.png'', png_magic)])"
  using create_message_deterministic [of "scripted []" "\<lparr>debug_mode = True, smtp_server = None\<rparr>"
      "''me@x.com''" "''a@x.com''" "''Hello''" "''<p>Hi</p>''" "Some [(''logo.png'', png_magic)]"
      "\<lparr>debug_mode = True, smtp_server = Some [False]\<rparr>"]
  by simp

subsection \<open>The recipient extractor\<close>

lemma of_char_lower_char:
  "(of_char (lower_char x) :: nat) =
     (if (65 \<le> (of_char x :: nat) \<and> (of_char x :: nat) \<le> 90)
        \<or> (192 \<le> (of_char x :: nat) \<and> (of_char x :: nat) \<le> 222 \<and> (of_char x :: nat) \<noteq> 215)
      then of_char x + 32 else of_char x)"
  by (simp add: lower_char_def Let_def)

lemma lower_char_eq:
  assumes "97 \<le> (of_char y :: nat)" "(of_char y :: nat) \<le> 122"
  shows "lower_char x = y \<longleftrightarrow> x = y \<or> of_char x + 32 = (of_char y :: nat)"
proof -
  have "lower_char x = y \<longleftrightarrow> (of_char (lower_char x) :: nat) = of_char y"
    by simp
  also have "\<dots> \<longleftrightarrow> (of_char x :: nat) = of_char y \<or> of_char x + 32 = (of_char y :: nat)"
    unfolding of_char_lower_char using assms by auto
  also have "\<dots> \<longleftrightarrow> x = y \<or> of_char x + 32 = (of_char y :: nat)"
    by simp
  finally show ?thesis .
qed

lemma lower_is_email: "lower w = ''email'' \<longleftrightarrow> any_case w ''email''"
proof -
  have small: "97 \<le> (of_char y :: nat) \<and> (of_char y :: nat) \<le> 122" if "y \<in> set ''email''" for y
    using that by auto
  have "lower w = ''email'' \<longleftrightarrow> list_all2 (\<lambda>x y. lower_char x = y) w ''email''"
    unfolding lower_def by (simp add: list_all2_conv_all_nth list_eq_iff_nth_eq)
  also have "\<dots> \<longleftrightarrow> any_case w ''email''"
    unfolding any_case_def list_all2_conv_all_nth
    using lower_char_eq small by (metis nth_mem)
  finally show ?thesis .
qed

lemma contains_email_iff: "sublist ''email'' (lower column) \<longleftrightarrow> names_email column"
proof
  assume "sublist ''email'' (lower column)"
  then obtain ps ss where "map lower_char column = ps @ ''email'' @ ss"
    by (auto simp: sublist_def lower_def)
  then have "\<exists>pre rest. column = pre @ rest \<and> ps = map lower_char pre
      \<and> ''email'' @ ss = map lower_char rest"
    by (rule map_eq_append_conv [THEN iffD1])
  then obtain pre rest where c: "column = pre @ rest"
    and r: "map lower_char rest = ''email'' @ ss"
    by (elim exE conjE) (rule that, simp_all)
  from r have "\<exists>w suf. rest = w @ suf \<and> ''email'' = map lower_char w \<and> ss = map lower_char suf"
    by (rule map_eq_append_conv [THEN iffD1])
  then obtain w suf where "rest = w @ suf" "map lower_char w = ''email''"
    by (elim exE conjE) (rule that, simp_all)
  with c show "names_email column"
    unfolding names_email_def using lower_is_email [of w] by (auto simp: lower_def)
next
  assume "names_email column"
  then obtain pre w suf where "column = pre @ w @ suf" "lower w = ''email''"
    by (auto simp: names_email_def lower_is_email)
  then have "lower column = lower pre @ ''email'' @ lower suf"
    by (simp add: lower_def)
  then show "sublist ''email'' (lower column)"
    unfolding sublist_def by blast
qed

lemma find_email_column_first:
  "find_email_column header = Some c \<longleftrightarrow>
     (\<exists>i < length header. header ! i = c \<and> sublist ''email'' (lower c)
        \<and> (\<forall>j < i. \<not> sublist ''email'' (lower (header ! j))))"
proof (induction header)
  case Nil
  then show ?case by simp
next
  case (Cons a header)
  show ?case
  proof (cases "sublist ''email'' (lower a)")
    case True
    have "(\<exists>i < length (a # header). (a # header) ! i = c \<and> sublist ''email'' (lower c)
        \<and> (\<forall>j < i. \<not> sublist ''email'' (lower ((a # header) ! j)))) \<longleftrightarrow> a = c"
    proof
      assume "\<exists>i < length (a # header). (a # header) ! i = c \<and> sublist ''email'' (lower c)
        \<and> (\<forall>j < i. \<not> sublist ''email'' (lower ((a # header) ! j)))"
      then obtain i where i: "(a # header) ! i = c"
        "\<forall>j < i. \<not> sublist ''email'' (lower ((a # header) ! j))"
        by blast
      from i(2) True have "i = 0"
        by (cases i) auto
      with i(1) show "a = c" by simp
    next
      assume "a = c"
      with True show "\<exists>i < length (a # header). (a # header) ! i = c \<and> sublist ''email'' (lower c)
        \<and> (\<forall>j < i. \<not> sublist ''email'' (lower ((a # header) ! j)))"
        by (intro exI [of _ 0]) simp
    qed
    with True show ?thesis by auto
  next
    case False
    have "(\<exists>i < length (a # header). (a # header) ! i = c \<and> sublist ''email'' (lower c)
        \<and> (\<forall>j < i. \<not> sublist ''email'' (lower ((a # header) ! j))))
      \<longleftrightarrow> (\<exists>i < length header. header ! i = c \<and> sublist ''email'' (lower c)
        \<and> (\<forall>j < i. \<not> sublist ''email'' (lower (header ! j))))" (is "?L \<longleftrightarrow> ?R")
    proof
      assume ?L
      then obtain i where i: "i < length (a # header)" "(a # header) ! i = c"
        "sublist ''email'' (lower c)" "\<forall>j < i. \<not> sublist ''email'' (lower ((a # header) ! j))"
        by blast
      from i(2,3) False obtain k where k: "i = Suc k"
        by (cases i) auto
      have "\<forall>j < k. \<not> sublist ''email'' (lower (header ! j))"
        using i(4) k by (metis Suc_less_eq nth_Cons_Suc)
      with i k show ?R
        by (intro exI [of _ k]) simp
    next
      assume ?R
      then obtain k where k: "k < length header" "header ! k = c"
        "sublist ''email'' (lower c)" "\<forall>j < k. \<not> sublist ''email'' (lower (header ! j))"
        by blast
      have "\<forall>j < Suc k. \<not> sublist ''email'' (lower ((a # header) ! j))"
        using k(4) False by (auto simp: less_Suc_eq_0_disj)
      with k show ?L
        by (intro exI [of _ "Suc k"]) simp
    qed
    with False Cons.IH show ?thesis by simp
  qed
qed

lemma find_email_column_none:
  "find_email_column header = None \<longleftrightarrow> (\<forall>c \<in> set header. \<not> sublist ''email'' (lower c))"
  by (induction header) auto

lemma read_csv_no_column:
  assumes "\<forall>c \<in> set header. \<not> names_email c"
  shows "read_csv_content self (header # rows)
          = (Inl (ValueError ''No email column found in CSV''),
             debug self ReadingCsv
               @ [LogError (ErrorReadingCsv (ValueError ''No email column found in CSV''))])"
proof -
  from assms have "find_email_column header = None"
    by (simp add: find_email_column_none contains_email_iff)
  then show ?thesis
    by (simp add: read_csv_content_def read_csv_try_def fieldnames_def)
qed


subsection \<open>The dispatch loop\<close>

lemma pace_of_simps [simp]:
  "pace_of [] = []"
  "pace_of (e # evs) = pace_event e @ pace_of evs"
  "pace_of (evs @ evs') = pace_of evs @ pace_of evs'"
  by (simp_all add: pace_of_def)

lemma outcomes_simps [simp]:
  "outcomes [] = []"
  "outcomes (e # evs) = outcome_event e @ outcomes evs"
  "outcomes (evs @ evs') = outcomes evs @ outcomes evs'"
  by (simp_all add: outcomes_def)

lemma progress_of_simps [simp]:
  "progress_of [] = []"
  "progress_of (e # evs) = progress_event e @ progress_of evs"
  "progress_of (evs @ evs') = progress_of evs @ progress_of evs'"
  by (simp_all add: progress_of_def)

lemma sends_of_simps [simp]:
  "sends_of [] = []"
  "sends_of (e # evs) = send_event e @ sends_of evs"
  "sends_of (evs @ evs') = sends_of evs @ sends_of evs'"
  by (simp_all add: sends_of_def)

lemma debug_quiet [simp]:
  "pace_of (debug self m) = []" "outcomes (debug self m) = []"
  "progress_of (debug self m) = []" "sends_of (debug self m) = []"
  by (simp_all add: debug_def)

lemma attach_files_quiet:
  assumes "attach_files lib atts m = (r, evs)"
  shows "pace_of evs = [] \<and> outcomes evs = [] \<and> progress_of evs = [] \<and> sends_of evs = []"
  using attach_files_events [OF assms]
  by (cases r) auto

lemma create_message_quiet:
  assumes "create_message lib self sender recipient subject content attachments = (r, evs)"
  shows "pace_of evs = [] \<and> outcomes evs = [] \<and> progress_of evs = [] \<and> sends_of evs = []"
proof -
  let ?m = "attach (MIMEText content ''html'')
     (set_item ''Subject'' subject (set_item ''To'' recipient (set_item ''From'' sender MIMEMultipart)))"
  let ?l = "case attachments of None \<Rightarrow> [] | Some l \<Rightarrow> l"
  obtain r' evs' where af: "attach_files lib ?l ?m = (r', evs')"
    by (cases "attach_files lib ?l ?m")
  have "evs = debug self (CreatingMessageFor recipient) @ evs'
      \<or> evs = debug self (CreatingMessageFor recipient)"
    using assms by (auto simp: create_message_def af Let_def split: if_splits)
  then show ?thesis
    using attach_files_quiet [OF af] by auto
qed

lemma attempt_quiet:
  assumes "attempt lib self sender email subject content attachments = (r, self1, evs)"
  shows "pace_of evs = [] \<and> outcomes evs = [] \<and> progress_of evs = [] \<and> length (sends_of evs) \<le> 1"
proof (cases "create_message lib self sender email subject content attachments")
  case (Pair b evs0)
  note quiet = create_message_quiet [OF Pair]
  show ?thesis
  proof (cases b)
    case (Inl e)
    with Pair assms quiet show ?thesis
      by (auto simp: attempt_def)
  next
    case (Inr m)
    with Pair assms have "evs = evs0 \<or> evs = evs0 @ [SmtpSendMessage m]"
      by (auto simp: attempt_def send_message_def split: option.splits prod.splits)
    with quiet show ?thesis
      by auto
  qed
qed

lemma attempt_build_error:
  assumes "fst (create_message lib self sender email subject content attachments) = Inl e"
  shows "\<exists>evs. attempt lib self sender email subject content attachments = (Some e, self, evs)
     \<and> sends_of evs = []"
proof (cases "create_message lib self sender email subject content attachments")
  case (Pair b evs0)
  with assms create_message_quiet [OF Pair] show ?thesis
    by (simp add: attempt_def)
qed

lemma block_step:
  assumes "attempt lib self sender email subject content atts = (r, self1, evs)"
  shows "pace_of (fst (send_with_retries lib sender email subject content atts idx len (Suc k) self))
      = (case r of
           None \<Rightarrow> [Sent, Pause 1]
         | Some e \<Rightarrow> Failed # (if k > 0 then [Pause 2] else [])
             @ pace_of (fst (send_with_retries lib sender email subject content atts idx len k self1)))"
    and "outcomes (fst (send_with_retries lib sender email subject content atts idx len (Suc k) self))
      = (case r of
           None \<Rightarrow> [(email, True)]
         | Some e \<Rightarrow> (if k > 0 then [] else [(email, False)])
             @ outcomes (fst (send_with_retries lib sender email subject content atts idx len k self1)))"
    and "progress_of (fst (send_with_retries lib sender email subject content atts idx len (Suc k) self))
      = (case r of
           None \<Rightarrow> [of_nat (idx + 1) / of_nat len]
         | Some e \<Rightarrow>
             progress_of (fst (send_with_retries lib sender email subject content atts idx len k self1)))"
    and "sends_of (fst (send_with_retries lib sender email subject content atts idx len (Suc k) self))
      = sends_of evs @ (case r of
           None \<Rightarrow> []
         | Some e \<Rightarrow>
             sends_of (fst (send_with_retries lib sender email subject content atts idx len k self1)))"
    and "snd (send_with_retries lib sender email subject content atts idx len (Suc k) self)
      = (case r of
           None \<Rightarrow> self1
         | Some e \<Rightarrow> snd (send_with_retries lib sender email subject content atts idx len k self1))"
  using assms attempt_quiet [OF assms]
  by (cases r; simp split: prod.splits)+

lemma attempt_sent:
  assumes "attempt lib self sender email subject content atts = (None, self1, evs)"
  shows "\<exists>srv m. fst (smtp_send_message lib srv m) = None"
  using assms
  by (auto simp: attempt_def send_message_def split: prod.splits sum.splits option.splits)
    (metis fst_conv)

declare send_with_retries.simps(2) [simp del]

lemma create_message_any_state:
  "fst (create_message lib self sender recipient subject content attachments)
     = fst (create_message lib self' sender recipient subject content attachments)"
  by (simp add: create_message_def Let_def split: prod.splits)

lemma block_three:
  fixes lib :: "'s library"
  defines "blk \<equiv> \<lambda>sender email subject content atts idx len self.
     fst (send_with_retries lib sender email subject content atts idx len 3 self)"
  shows "\<exists>ok. outcomes (blk sender email subject content atts idx len self) = [(email, ok)]
     \<and> progress_of (blk sender email subject content atts idx len self)
         = (if ok then [of_nat (idx + 1) / of_nat len] else [])
     \<and> (ok \<longleftrightarrow> pace_of (blk sender email subject content atts idx len self)
             \<noteq> [Failed, Pause 2, Failed, Pause 2, Failed])
     \<and> paused_after_sent (pace_of (blk sender email subject content atts idx len self))"
proof -
  obtain r1 s1 e1 where a1: "attempt lib self sender email subject content atts = (r1, s1, e1)"
    by (metis prod_cases3)
  obtain r2 s2 e2 where a2: "attempt lib s1 sender email subject content atts = (r2, s2, e2)"
    by (metis prod_cases3)
  obtain r3 s3 e3 where a3: "attempt lib s2 sender email subject content atts = (r3, s3, e3)"
    by (metis prod_cases3)
  note steps = block_step [OF a1, of idx len "Suc (Suc 0)"] block_step [OF a2, of idx len "Suc 0"]
    block_step [OF a3, of idx len 0]
  show ?thesis
    unfolding blk_def
    by (cases r1; cases r2; cases r3) (auto simp: numeral_3_eq_3 steps(1-3,6-8,11-13))
qed

lemma for_each_email_cons:
  "fst (for_each_email lib sender subject content atts len idx (email # rest) self)
     = fst (send_with_retries lib sender email subject content atts idx len 3 self)
       @ fst (for_each_email lib sender subject content atts len (Suc idx) rest
               (snd (send_with_retries lib sender email subject content atts idx len 3 self)))"
  by (simp split: prod.splits)

lemma loop_outcomes:
  "map fst (outcomes (fst (for_each_email lib sender subject content atts len idx emails self)))
     = emails"
proof (induction emails arbitrary: idx self)
  case Nil
  then show ?case by simp
next
  case (Cons email rest)
  from block_three [of lib sender email subject content atts idx len self]
  obtain ok where "outcomes (fst (send_with_retries lib sender email subject content atts idx len 3 self))
      = [(email, ok)]"
    by blast
  with Cons.IH show ?case
    by (simp add: for_each_email_cons del: for_each_email.simps)
qed

lemma paused_after_sent_append:
  "paused_after_sent ps \<Longrightarrow> paused_after_sent qs \<Longrightarrow> paused_after_sent (ps @ qs)"
  by (induction ps rule: paused_after_sent.induct) (auto split: list.splits pace.splits)

lemma loop_paced:
  "paused_after_sent (pace_of (fst (for_each_email lib sender subject content atts len idx emails self)))"
proof (induction emails arbitrary: idx self)
  case Nil
  then show ?case by simp
next
  case (Cons email rest)
  from block_three [of lib sender email subject content atts idx len self]
  have "paused_after_sent
      (pace_of (fst (send_with_retries lib sender email subject content atts idx len 3 self)))"
    by blast
  with Cons.IH show ?case
    by (simp add: for_each_email_cons paused_after_sent_append del: for_each_email.simps)
qed

lemma loop_progress:
  "progress_of (fst (for_each_email lib sender subject content atts len idx emails self))
     = map (\<lambda>i. of_nat (i + 1) / of_nat len)
         (map snd (filter fst
            (zip (map snd (outcomes (fst (for_each_email lib sender subject content atts len idx
                                            emails self))))
               [idx ..< idx + length emails])))"
proof (induction emails arbitrary: idx self)
  case Nil
  then show ?case by simp
next
  case (Cons email rest)
  from block_three [of lib sender email subject content atts idx len self]
  obtain ok where ok:
    "outcomes (fst (send_with_retries lib sender email subject content atts idx len 3 self))
      = [(email, ok)]"
    "progress_of (fst (send_with_retries lib sender email subject content atts idx len 3 self))
      = (if ok then [of_nat (idx + 1) / of_nat len] else [])"
    by blast
  have upt: "[idx ..< idx + length (email # rest)] = idx # [Suc idx ..< Suc idx + length rest]"
    by (simp add: upt_conv_Cons del: upt_Suc)
  show ?case
    unfolding upt for_each_email_cons
    by (simp add: ok Cons.IH [of "Suc idx"] del: for_each_email.simps)
qed

lemma picked_positions:
  "map snd (filter fst (zip oks [k ..< k + length oks])) = filter (\<lambda>i. oks ! (i - k)) [k ..< k + length oks]"
proof (induction oks arbitrary: k)
  case Nil
  then show ?case by simp
next
  case (Cons ok oks)
  have upt: "[k ..< k + length (ok # oks)] = k # [Suc k ..< Suc k + length oks]"
    by (simp add: upt_conv_Cons del: upt_Suc)
  have "filter (\<lambda>i. (ok # oks) ! (i - k)) [Suc k ..< Suc k + length oks]
      = filter (\<lambda>i. oks ! (i - Suc k)) [Suc k ..< Suc k + length oks]"
  proof (rule filter_cong)
    fix i
    assume "i \<in> set [Suc k ..< Suc k + length oks]"
    then have "i - k = Suc (i - Suc k)"
      by auto
    then show "(ok # oks) ! (i - k) = oks ! (i - Suc k)"
      by simp
  qed simp
  with Cons.IH [of "Suc k"] show ?case
    unfolding upt by (cases ok) (simp_all del: upt_Suc)
qed

lemma send_emails_events:
  "fst (send_emails lib self sender emails subject content atts)
     = debug self StartingProcess @ [ProgressBar 0, StatusEmpty]
       @ fst (for_each_email lib sender subject content atts (length emails) 0 emails self)
       @ [StatusText CampaignCompleted]"
  by (simp add: send_emails_def split: prod.splits)

lemma send_emails_read:
  "outcomes (fst (send_emails lib self sender emails subject content atts))
     = outcomes (fst (for_each_email lib sender subject content atts (length emails) 0 emails self))"
  "progress_of (fst (send_emails lib self sender emails subject content atts))
     = 0 # progress_of (fst (for_each_email lib sender subject content atts (length emails) 0 emails self))"
  "pace_of (fst (send_emails lib self sender emails subject content atts))
     = pace_of (fst (for_each_email lib sender subject content atts (length emails) 0 emails self))"
  by (simp_all add: send_emails_events)

lemma block_exhausted:
  assumes "pace_of (fst (send_with_retries lib sender email subject content atts idx len 3 self))
      = [Failed, Pause 2, Failed, Pause 2, Failed]"
  shows "\<exists>pre. fst (send_with_retries lib sender email subject content atts idx len 3 self)
      = pre @ [LogError (MaxRetriesReached email), StatusText (FailedAfterMaxRetries email)]"
proof -
  obtain r1 s1 e1 where a1: "attempt lib self sender email subject content atts = (r1, s1, e1)"
    by (metis prod_cases3)
  obtain r2 s2 e2 where a2: "attempt lib s1 sender email subject content atts = (r2, s2, e2)"
    by (metis prod_cases3)
  obtain r3 s3 e3 where a3: "attempt lib s2 sender email subject content atts = (r3, s3, e3)"
    by (metis prod_cases3)
  note steps = block_step [OF a1, of idx len "Suc (Suc 0)"] block_step [OF a2, of idx len "Suc 0"]
    block_step [OF a3, of idx len 0]
  from assms obtain x1 x2 x3 where r: "r1 = Some x1" "r2 = Some x2" "r3 = Some x3"
    by (cases r1; cases r2; cases r3) (simp_all add: numeral_3_eq_3 steps(1,6,11))
  show ?thesis
    by (simp add: numeral_3_eq_3 send_with_retries.simps(2) a1 a2 a3 r)
qed

lemma block_sent:
  assumes "pace_of (fst (send_with_retries lib sender email subject content atts idx len 3 self))
      \<noteq> [Failed, Pause 2, Failed, Pause 2, Failed]"
  shows "\<exists>pre. fst (send_with_retries lib sender email subject content atts idx len 3 self)
      = pre @ [StatusText (SentEmailTo email), ProgressBar (of_nat (idx + 1) / of_nat len), Sleep 1]"
proof -
  obtain r1 s1 e1 where a1: "attempt lib self sender email subject content atts = (r1, s1, e1)"
    by (metis prod_cases3)
  obtain r2 s2 e2 where a2: "attempt lib s1 sender email subject content atts = (r2, s2, e2)"
    by (metis prod_cases3)
  obtain r3 s3 e3 where a3: "attempt lib s2 sender email subject content atts = (r3, s3, e3)"
    by (metis prod_cases3)
  note steps = block_step [OF a1, of idx len "Suc (Suc 0)"] block_step [OF a2, of idx len "Suc 0"]
    block_step [OF a3, of idx len 0]
  from assms have "r1 = None \<or> r2 = None \<or> r3 = None"
    by (cases r1; cases r2; cases r3) (simp_all add: numeral_3_eq_3 steps(1,6,11))
  then show ?thesis
    by (cases r1; cases r2; cases r3)
      (simp_all add: numeral_3_eq_3 send_with_retries.simps(2) a1 a2 a3)
qed

lemma loop_all_refused:
  assumes "\<forall>srv m. fst (smtp_send_message lib srv m) \<noteq> None"
  shows "outcomes (fst (for_each_email lib sender subject content atts len idx emails self))
     = map (\<lambda>r. (r, False)) emails"
proof (induction emails arbitrary: idx self)
  case Nil
  then show ?case by simp
next
  case (Cons email rest)
  obtain r1 s1 e1 where a1: "attempt lib self sender email subject content atts = (r1, s1, e1)"
    by (metis prod_cases3)
  obtain r2 s2 e2 where a2: "attempt lib s1 sender email subject content atts = (r2, s2, e2)"
    by (metis prod_cases3)
  obtain r3 s3 e3 where a3: "attempt lib s2 sender email subject content atts = (r3, s3, e3)"
    by (metis prod_cases3)
  note steps = block_step [OF a1, of idx len "Suc (Suc 0)"] block_step [OF a2, of idx len "Suc 0"]
    block_step [OF a3, of idx len 0]
  have "r1 \<noteq> None" "r2 \<noteq> None" "r3 \<noteq> None"
    using assms attempt_sent a1 a2 a3 by metis+
  then have "outcomes (fst (send_with_retries lib sender email subject content atts idx len 3 self))
      = [(email, False)]"
    by (auto simp: numeral_3_eq_3 steps(2,7,12))
  with Cons.IH show ?case
    by (simp add: for_each_email_cons del: for_each_email.simps)
qed

text \<open>
  Claim C1, as stated: every fraction is the number of recipients sent so far over the
  number of recipients. With two recipients, the first refused three times and the
  second accepted, the bar ends at 1 although one of two messages was sent.
\<close>

theorem progress_follows_position_counterexample:
  "progress_of (fst (send_emails (scripted [False, False, False, True])
        \<lparr>debug_mode = False, smtp_server = Some [False, False, False, True]\<rparr>
        ''me@x.com'' [''a@x.com'', ''b@y.com''] ''Hello'' ''<p>Hi</p>'' (Some []))) = [0, 1]
   \<and> outcomes (fst (send_emails (scripted [False, False, False, True])
        \<lparr>debug_mode = False, smtp_server = Some [False, False, False, True]\<rparr>
        ''me@x.com'' [''a@x.com'', ''b@y.com''] ''Hello'' ''<p>Hi</p>'' (Some [])))
      = [(''a@x.com'', False), (''b@y.com'', True)]
   \<and> last (progress_of (fst (send_emails (scripted [False, False, False, True])
        \<lparr>debug_mode = False, smtp_server = Some [False, False, False, True]\<rparr>
        ''me@x.com'' [''a@x.com'', ''b@y.com''] ''Hello'' ''<p>Hi</p>'' (Some []))))
      \<noteq> of_nat (length (filter snd (outcomes (fst (send_emails (scripted [False, False, False, True])
        \<lparr>debug_mode = False, smtp_server = Some [False, False, False, True]\<rparr>
        ''me@x.com'' [''a@x.com'', ''b@y.com''] ''Hello'' ''<p>Hi</p>'' (Some []))))))
          / of_nat (length [''a@x.com'', ''b@y.com''])"
  by code_simp

text \<open>
  Claim C1, amended. The bar is created at 0. After that one fraction is emitted for each
  recipient whose message is sent, in the order of the list, and it is the position of
  that recipient, counted from 1, over the number of recipients. The fractions emitted
  increase strictly. The value 1 is emitted exactly when the last recipient of the list
  is sent. When every recipient is sent, the fractions are 0, 1/n, 2/n and so on up
  to 1, the number sent so far over the number of recipients.
\<close>

theorem progress_follows_position:
  "progress_of (fst (send_emails lib self sender emails subject content attachments))
     = 0 # map (\<lambda>i. of_nat (i + 1) / of_nat (length emails))
             (filter (\<lambda>i. snd (outcomes (fst (send_emails lib self sender emails subject content
                                                   attachments)) ! i))
                [0 ..< length emails])
   \<and> sorted_wrt (<) (progress_of (fst (send_emails lib self sender emails subject content attachments)))
   \<and> (1 \<in> set (progress_of (fst (send_emails lib self sender emails subject content attachments)))
        \<longleftrightarrow> emails \<noteq> []
            \<and> snd (last (outcomes (fst (send_emails lib self sender emails subject content
                                          attachments)))))
   \<and> ((\<forall>i < length emails.
          snd (outcomes (fst (send_emails lib self sender emails subject content attachments)) ! i))
        \<longrightarrow> progress_of (fst (send_emails lib self sender emails subject content attachments))
            = map (\<lambda>k. of_nat k / of_nat (length emails)) [0 ..< Suc (length emails)])"
proof -
  let ?t = "fst (send_emails lib self sender emails subject content attachments)"
  let ?loop = "fst (for_each_email lib sender subject content attachments (length emails) 0 emails self)"
  let ?n = "length emails"
  let ?f = "\<lambda>i. (of_nat (i + 1) / of_nat ?n :: rat)"
  let ?ok = "\<lambda>i. snd (outcomes ?t ! i)"
  have len: "length (outcomes ?t) = ?n"
    using loop_outcomes [of lib sender subject content attachments ?n 0 emails self]
    by (metis length_map send_emails_read(1))
  have "map snd (filter fst (zip (map snd (outcomes ?t)) [0 ..< 0 + length (map snd (outcomes ?t))]))
      = filter (\<lambda>i. map snd (outcomes ?t) ! (i - 0)) [0 ..< 0 + length (map snd (outcomes ?t))]"
    by (rule picked_positions)
  also have "\<dots> = filter ?ok [0 ..< ?n]"
    by (rule filter_cong) (simp_all add: len)
  finally have pick: "map snd (filter fst (zip (map snd (outcomes ?t)) [0 ..< ?n])) = filter ?ok [0 ..< ?n]"
    by (simp add: len)
  have "progress_of ?loop
      = map ?f (map snd (filter fst (zip (map snd (outcomes ?t)) [0 ..< ?n])))"
    using loop_progress [of lib sender subject content attachments ?n 0 emails self]
    by (simp only: send_emails_read(1) add_0)
  then have "progress_of ?loop = map ?f (filter ?ok [0 ..< ?n])"
    by (simp only: pick)
  then have formula: "progress_of ?t = 0 # map ?f (filter ?ok [0 ..< ?n])"
    by (simp only: send_emails_read(2))
  have pos: "0 < ?f i" if "emails \<noteq> []" for i
    using that by simp
  have mono: "?f i < ?f j" if "i < j" "emails \<noteq> []" for i j
    using that by (simp add: divide_strict_right_mono)
  have sorted: "sorted_wrt (<) (progress_of ?t)"
  proof (cases "emails = []")
    case True
    then show ?thesis unfolding formula by simp
  next
    case False
    have "sorted_wrt (<) (filter ?ok [0 ..< ?n])"
      by (rule sorted_wrt_filter) simp
    then have "sorted_wrt (\<lambda>i j. ?f i < ?f j) (filter ?ok [0 ..< ?n])"
      by (rule sorted_wrt_mono_rel [rotated]) (use mono False in blast)
    then show ?thesis
      unfolding formula using pos [OF False] by (simp add: sorted_wrt_map)
  qed
  have one: "1 \<in> set (progress_of ?t) \<longleftrightarrow> emails \<noteq> [] \<and> snd (last (outcomes ?t))"
  proof (cases "emails = []")
    case True
    then show ?thesis unfolding formula by simp
  next
    case False
    then have n: "0 < ?n" by simp
    have "?f i = 1 \<longleftrightarrow> i = ?n - 1" for i
    proof -
      have "?f i = 1 \<longleftrightarrow> (of_nat (i + 1) :: rat) = of_nat ?n"
        using n by (auto simp: field_simps)
      also have "\<dots> \<longleftrightarrow> i + 1 = ?n"
        by (rule of_nat_eq_iff)
      finally show ?thesis using n by auto
    qed
    then have "1 \<in> set (progress_of ?t) \<longleftrightarrow> ?ok (?n - 1)"
      unfolding formula using n by (auto simp: image_iff)
    also have "\<dots> \<longleftrightarrow> snd (last (outcomes ?t))"
    proof -
      from len n have "outcomes ?t \<noteq> []"
        by auto
      then have "last (outcomes ?t) = outcomes ?t ! (?n - 1)"
        by (simp add: last_conv_nth len)
      then show ?thesis by simp
    qed
    finally show ?thesis using False by simp
  qed
  have all: "progress_of ?t = map (\<lambda>k. of_nat k / of_nat ?n) [0 ..< Suc ?n]"
    if "\<forall>i < ?n. ?ok i"
  proof -
    from that have "filter ?ok [0 ..< ?n] = [0 ..< ?n]"
      by (simp add: filter_id_conv)
    then have "progress_of ?t = 0 # map (\<lambda>k. of_nat k / of_nat ?n) (map Suc [0 ..< ?n])"
      by (simp add: formula)
    also have "\<dots> = map (\<lambda>k. of_nat k / of_nat ?n) (0 # map Suc [0 ..< ?n])"
      by simp
    also have "0 # map Suc [0 ..< ?n] = [0 ..< Suc ?n]"
      by (simp only: map_Suc_upt upt_conv_Cons [of 0 "Suc ?n"] zero_less_Suc)
    finally show ?thesis .
  qed
  show ?thesis
    using formula sorted one all by blast
qed

theorem progress_follows_position_witness:
  "snd (outcomes (fst (send_emails (scripted []) \<lparr>debug_mode = False, smtp_server = Some []\<rparr>
          ''me@x.com'' [''a@x.com'', ''b@y.com''] ''Hello'' ''<p>Hi</p>'' (Some []))) ! 0)
   \<and> snd (outcomes (fst (send_emails (scripted []) \<lparr>debug_mode = False, smtp_server = Some []\<rparr>
          ''me@x.com'' [''a@x.com'', ''b@y.com''] ''Hello'' ''<p>Hi</p>'' (Some []))) ! 1)
   \<and> progress_of (fst (send_emails (scripted []) \<lparr>debug_mode = False, smtp_server = Some []\<rparr>
          ''me@x.com'' [''a@x.com'', ''b@y.com''] ''Hello'' ''<p>Hi</p>'' (Some [])))
       = [0, 1 / 2, 1]"
proof -
  let ?t = "fst (send_emails (scripted []) \<lparr>debug_mode = False, smtp_server = Some []\<rparr>
          ''me@x.com'' [''a@x.com'', ''b@y.com''] ''Hello'' ''<p>Hi</p>'' (Some []))"
  have sent: "outcomes ?t = [(''a@x.com'', True), (''b@y.com'', True)]"
    by code_simp
  then have all: "\<forall>i < length [''a@x.com'', ''b@y.com'']. snd (outcomes ?t ! i)"
    by (simp add: less_Suc_eq)
  from progress_follows_position [THEN conjunct2, THEN conjunct2, THEN conjunct2, THEN mp, OF all]
  have "progress_of ?t = map (\<lambda>k. of_nat k / of_nat (length [''a@x.com'', ''b@y.com'']))
      [0 ..< Suc (length [''a@x.com'', ''b@y.com''])]" .
  then have "progress_of ?t = [0, 1 / 2, 1]"
    by simp
  with sent show ?thesis
    by simp
qed

text \<open>
  Claim C3. Whatever fails, every recipient of the list is resolved once, in the order
  of the list, as sent or as given up, and the last event of the run is the status
  \<open>Email campaign completed!\<close>. A recipient whose three attempts fail is recorded as
  given up: the error log gets \<open>Max retries reached\<close> and the status line says so, and
  these are the last events for that recipient, after which the loop is at the next
  one. When the relay refuses every message, every recipient is given up and the run
  still ends with the final status.
\<close>

theorem failures_do_not_abort:
  "map fst (outcomes (fst (send_emails lib self sender emails subject content attachments))) = emails
   \<and> last (fst (send_emails lib self sender emails subject content attachments))
       = StatusText CampaignCompleted
   \<and> (pace_of (fst (send_with_retries lib sender email subject content attachments idx len 3 self))
         = [Failed, Pause 2, Failed, Pause 2, Failed] \<longrightarrow>
       outcomes (fst (send_with_retries lib sender email subject content attachments idx len 3 self))
         = [(email, False)]
       \<and> (\<exists>pre. fst (send_with_retries lib sender email subject content attachments idx len 3 self)
             = pre @ [LogError (MaxRetriesReached email), StatusText (FailedAfterMaxRetries email)]))
   \<and> ((\<forall>srv m. fst (smtp_send_message lib srv m) \<noteq> None) \<longrightarrow>
       outcomes (fst (send_emails lib self sender emails subject content attachments))
         = map (\<lambda>r. (r, False)) emails)"
proof -
  have all: "map fst (outcomes (fst (send_emails lib self sender emails subject content attachments)))
      = emails"
    by (simp only: send_emails_read(1) loop_outcomes)
  have finished: "last (fst (send_emails lib self sender emails subject content attachments))
      = StatusText CampaignCompleted"
    by (simp add: send_emails_events)
  have failed: "outcomes (fst (send_with_retries lib sender email subject content attachments idx len 3 self))
         = [(email, False)]"
    if "pace_of (fst (send_with_retries lib sender email subject content attachments idx len 3 self))
         = [Failed, Pause 2, Failed, Pause 2, Failed]"
    using that block_three [of lib sender email subject content attachments idx len self]
    by auto
  have refused: "outcomes (fst (send_emails lib self sender emails subject content attachments))
         = map (\<lambda>r. (r, False)) emails"
    if "\<forall>srv m. fst (smtp_send_message lib srv m) \<noteq> None"
    by (simp only: send_emails_read(1) loop_all_refused [OF that])
  show ?thesis
    using all finished failed block_exhausted refused by blast
qed

theorem failures_do_not_abort_witness:
  "pace_of (fst (send_with_retries (scripted [False, False, False]) ''me@x.com'' ''a@x.com'' ''Hello''
            ''<p>Hi</p>'' (Some []) 0 2 3 \<lparr>debug_mode = False, smtp_server = Some [False, False, False]\<rparr>))
     = [Failed, Pause 2, Failed, Pause 2, Failed]
   \<and> outcomes (fst (send_with_retries (scripted [False, False, False]) ''me@x.com'' ''a@x.com'' ''Hello''
            ''<p>Hi</p>'' (Some []) 0 2 3 \<lparr>debug_mode = False, smtp_server = Some [False, False, False]\<rparr>))
     = [(''a@x.com'', False)]
   \<and> outcomes (fst (send_emails refusing \<lparr>debug_mode = False, smtp_server = Some ()\<rparr>
            ''me@x.com'' [''a@x.com'', ''b@y.com''] ''Hello'' ''<p>Hi</p>'' (Some [])))
     = [(''a@x.com'', False), (''b@y.com'', False)]
   \<and> last (fst (send_emails refusing \<lparr>debug_mode = False, smtp_server = Some ()\<rparr>
            ''me@x.com'' [''a@x.com'', ''b@y.com''] ''Hello'' ''<p>Hi</p>'' (Some [])))
     = StatusText CampaignCompleted"
proof -
  have three: "pace_of (fst (send_with_retries (scripted [False, False, False]) ''me@x.com'' ''a@x.com''
            ''Hello'' ''<p>Hi</p>'' (Some []) 0 2 3
            \<lparr>debug_mode = False, smtp_server = Some [False, False, False]\<rparr>))
     = [Failed, Pause 2, Failed, Pause 2, Failed]"
    by code_simp
  have never: "\<forall>srv m. fst (smtp_send_message refusing srv m) \<noteq> None"
    by (simp add: refusing_def)
  note inst = failures_do_not_abort [of refusing "\<lparr>debug_mode = False, smtp_server = Some ()\<rparr>"
      "''me@x.com''" "[''a@x.com'', ''b@y.com'']" "''Hello''" "''<p>Hi</p>''" "Some []"]
  from failures_do_not_abort [THEN conjunct2, THEN conjunct2, THEN conjunct1, THEN mp, OF three]
    inst [THEN conjunct2, THEN conjunct2, THEN conjunct2, THEN mp, OF never]
    inst [THEN conjunct2, THEN conjunct1] three
  show ?thesis
    by simp
qed

lemma attempt_result:
  assumes "fst (create_message lib self sender email subject content atts) = Inr m"
    and "smtp_server self = Some s"
    and "smtp_send_message lib s m = (r, s')"
  shows "\<exists>evs. attempt lib self sender email subject content atts
      = (r, self\<lparr>smtp_server := Some s'\<rparr>, evs)"
proof (cases "create_message lib self sender email subject content atts")
  case (Pair b evs0)
  with assms show ?thesis
    by (simp add: attempt_def send_message_def)
qed

subsection \<open>The steps of a run, recipient by recipient\<close>

lemma steps_of_simps [simp]:
  "steps_of [] = []"
  "steps_of (e # evs) = step_event e @ steps_of evs"
  "steps_of (evs @ evs') = steps_of evs @ steps_of evs'"
  by (simp_all add: steps_of_def)

lemma debug_no_steps [simp]: "steps_of (debug self m) = []"
  by (simp add: debug_def)

lemma attempt_no_steps:
  assumes "attempt lib self sender email subject content attachments = (r, self1, evs)"
  shows "steps_of evs = []"
proof -
  let ?m = "attach (MIMEText content ''html'')
     (set_item ''Subject'' subject (set_item ''To'' email (set_item ''From'' sender MIMEMultipart)))"
  let ?l = "case attachments of None \<Rightarrow> [] | Some l \<Rightarrow> l"
  obtain b evs0 where cm: "create_message lib self sender email subject content attachments = (b, evs0)"
    by (cases "create_message lib self sender email subject content attachments")
  obtain r' evs' where af: "attach_files lib ?l ?m = (r', evs')"
    by (cases "attach_files lib ?l ?m")
  have "steps_of evs' = []"
    using attach_files_events [OF af] by (cases r') auto
  moreover have "evs0 = debug self (CreatingMessageFor email) @ evs'
      \<or> evs0 = debug self (CreatingMessageFor email)"
    using cm by (auto simp: create_message_def af Let_def split: if_splits)
  ultimately have quiet: "steps_of evs0 = []"
    by auto
  show ?thesis
  proof (cases b)
    case (Inl e)
    with cm assms quiet show ?thesis
      by (auto simp: attempt_def)
  next
    case (Inr m)
    with cm assms have "evs = evs0 \<or> evs = evs0 @ [SmtpSendMessage m]"
      by (auto simp: attempt_def send_message_def split: option.splits prod.splits)
    with quiet show ?thesis
      by auto
  qed
qed

lemma block_step_steps:
  assumes "attempt lib self sender email subject content atts = (r, self1, evs)"
  shows "steps_of (fst (send_with_retries lib sender email subject content atts idx len (Suc k) self))
      = (case r of
           None \<Rightarrow> [Tried email True, Waited 1]
         | Some e \<Rightarrow> Tried email False # (if k > 0 then [Waited 2] else [])
             @ steps_of (fst (send_with_retries lib sender email subject content atts idx len k self1)))"
  using assms attempt_no_steps [OF assms]
  by (cases r) (simp_all add: send_with_retries.simps(2) split: prod.splits)

lemma block_budget:
  shows "steps_of (fst (send_with_retries lib sender email subject content atts idx len 3 self))
     \<in> {recipient_steps email 0, recipient_steps email 1, recipient_steps email 2,
         recipient_steps email 3}"
    and "outcomes (fst (send_with_retries lib sender email subject content atts idx len 3 self))
     = [(email, steps_of (fst (send_with_retries lib sender email subject content atts idx len 3 self))
                  \<noteq> given_up email)]"
  and "length (sends_of (fst (send_with_retries lib sender email subject content atts idx len 3 self)))
     \<le> 3"
proof -
  obtain r1 s1 e1 where a1: "attempt lib self sender email subject content atts = (r1, s1, e1)"
    by (metis prod_cases3)
  obtain r2 s2 e2 where a2: "attempt lib s1 sender email subject content atts = (r2, s2, e2)"
    by (metis prod_cases3)
  obtain r3 s3 e3 where a3: "attempt lib s2 sender email subject content atts = (r3, s3, e3)"
    by (metis prod_cases3)
  note steps = block_step_steps [OF a1, of idx len "Suc (Suc 0)"]
    block_step_steps [OF a2, of idx len "Suc 0"] block_step_steps [OF a3, of idx len 0]
  note others = block_step [OF a1, of idx len "Suc (Suc 0)"] block_step [OF a2, of idx len "Suc 0"]
    block_step [OF a3, of idx len 0]
  note few = attempt_quiet [OF a1] attempt_quiet [OF a2] attempt_quiet [OF a3]
  have shapes: "recipient_steps email 0 = [Tried email True, Waited 1]"
    "recipient_steps email 1 = [Tried email False, Waited 2, Tried email True, Waited 1]"
    "recipient_steps email 2
       = [Tried email False, Waited 2, Tried email False, Waited 2, Tried email True, Waited 1]"
    "recipient_steps email 3
       = [Tried email False, Waited 2, Tried email False, Waited 2, Tried email False]"
    by (simp_all add: recipient_steps_def sent_after_def given_up_def numeral_2_eq_2)
  show "steps_of (fst (send_with_retries lib sender email subject content atts idx len 3 self))
     \<in> {recipient_steps email 0, recipient_steps email 1, recipient_steps email 2,
         recipient_steps email 3}"
    unfolding shapes
    by (cases r1; cases r2; cases r3) (simp_all add: numeral_3_eq_3 steps)
  show "outcomes (fst (send_with_retries lib sender email subject content atts idx len 3 self))
     = [(email, steps_of (fst (send_with_retries lib sender email subject content atts idx len 3 self))
                  \<noteq> given_up email)]"
    by (cases r1; cases r2; cases r3)
      (simp_all add: numeral_3_eq_3 steps others(2,7,12) given_up_def)
  show "length (sends_of (fst (send_with_retries lib sender email subject content atts idx len 3 self)))
     \<le> 3"
    using few by (cases r1; cases r2; cases r3) (simp_all add: numeral_3_eq_3 others(4,9,14))
qed

lemma block_build_error:
  assumes "fst (create_message lib self sender email subject content atts) = Inl e"
  shows "steps_of (fst (send_with_retries lib sender email subject content atts idx len 3 self))
      = given_up email"
    and "sends_of (fst (send_with_retries lib sender email subject content atts idx len 3 self)) = []"
    and "snd (send_with_retries lib sender email subject content atts idx len 3 self) = self"
proof -
  obtain v where a: "attempt lib self sender email subject content atts = (Some e, self, v)"
    "sends_of v = []"
    using attempt_build_error [OF assms] by blast
  note steps = block_step_steps [OF a(1), of idx len "Suc (Suc 0)"]
    block_step_steps [OF a(1), of idx len "Suc 0"] block_step_steps [OF a(1), of idx len 0]
  note others = block_step [OF a(1), of idx len "Suc (Suc 0)"] block_step [OF a(1), of idx len "Suc 0"]
    block_step [OF a(1), of idx len 0]
  show "steps_of (fst (send_with_retries lib sender email subject content atts idx len 3 self))
      = given_up email"
    by (simp add: numeral_3_eq_3 steps given_up_def)
  show "sends_of (fst (send_with_retries lib sender email subject content atts idx len 3 self)) = []"
    by (simp add: numeral_3_eq_3 others(4,9,14) a(2))
  show "snd (send_with_retries lib sender email subject content atts idx len 3 self) = self"
    by (simp add: numeral_3_eq_3 others(5,10,15))
qed

lemma block_refused:
  assumes "\<forall>srv m. fst (smtp_send_message lib srv m) \<noteq> None"
  shows "steps_of (fst (send_with_retries lib sender email subject content atts idx len 3 self))
      = given_up email"
proof -
  obtain r1 s1 e1 where a1: "attempt lib self sender email subject content atts = (r1, s1, e1)"
    by (metis prod_cases3)
  obtain r2 s2 e2 where a2: "attempt lib s1 sender email subject content atts = (r2, s2, e2)"
    by (metis prod_cases3)
  obtain r3 s3 e3 where a3: "attempt lib s2 sender email subject content atts = (r3, s3, e3)"
    by (metis prod_cases3)
  note steps = block_step_steps [OF a1, of idx len "Suc (Suc 0)"]
    block_step_steps [OF a2, of idx len "Suc 0"] block_step_steps [OF a3, of idx len 0]
  have "r1 \<noteq> None" "r2 \<noteq> None" "r3 \<noteq> None"
    using assms attempt_sent a1 a2 a3 by metis+
  then show ?thesis
    by (auto simp: numeral_3_eq_3 steps given_up_def)
qed

lemma loop_steps:
  "\<exists>ks. length ks = length emails
     \<and> steps_of (fst (for_each_email lib sender subject content atts len idx emails self))
         = concat (map2 recipient_steps emails ks)
     \<and> outcomes (fst (for_each_email lib sender subject content atts len idx emails self))
         = map2 (\<lambda>r k. (r, k < 3)) emails ks"
proof (induction emails arbitrary: idx self)
  case Nil
  then show ?case by simp
next
  case (Cons email rest)
  let ?blk = "send_with_retries lib sender email subject content atts idx len 3 self"
  from block_budget(1) [of lib sender email subject content atts idx len self]
  obtain k where k: "steps_of (fst ?blk) = recipient_steps email k" "k \<le> 3"
    by auto
  have sent: "recipient_steps email k \<noteq> given_up email \<longleftrightarrow> k < 3"
    using k(2) by (auto simp: recipient_steps_def sent_after_def given_up_def)
  from Cons [of "Suc idx" "snd ?blk"] obtain ks where ks: "length ks = length rest"
    "steps_of (fst (for_each_email lib sender subject content atts len (Suc idx) rest (snd ?blk)))
       = concat (map2 recipient_steps rest ks)"
    "outcomes (fst (for_each_email lib sender subject content atts len (Suc idx) rest (snd ?blk)))
       = map2 (\<lambda>r k. (r, k < 3)) rest ks"
    by blast
  show ?case
    by (rule exI [of _ "k # ks"])
      (simp add: for_each_email_cons k(1) ks sent
        block_budget(2) [of lib sender email subject content atts idx len self]
        del: for_each_email.simps)
qed

lemma loop_sends:
  "length (sends_of (fst (for_each_email lib sender subject content atts len idx emails self)))
     \<le> 3 * length emails"
proof (induction emails arbitrary: idx self)
  case Nil
  then show ?case by simp
next
  case (Cons email rest)
  show ?case
    using block_budget(3) [of lib sender email subject content atts idx len self]
      Cons [of "Suc idx" "snd (send_with_retries lib sender email subject content atts idx len 3 self)"]
    by (simp add: for_each_email_cons del: for_each_email.simps)
qed

lemma loop_build_errors:
  assumes "\<forall>r \<in> set emails. \<exists>e. fst (create_message lib self sender r subject content atts) = Inl e"
  shows "steps_of (fst (for_each_email lib sender subject content atts len idx emails self))
      = concat (map given_up emails)
    \<and> sends_of (fst (for_each_email lib sender subject content atts len idx emails self)) = []"
  using assms
proof (induction emails arbitrary: idx)
  case Nil
  then show ?case by simp
next
  case (Cons email rest)
  from Cons.prems obtain e where e: "fst (create_message lib self sender email subject content atts) = Inl e"
    by auto
  note blk = block_build_error [OF e, of idx len]
  from Cons show ?case
    by (simp add: for_each_email_cons blk del: for_each_email.simps)
qed

lemma loop_refused:
  assumes "\<forall>srv m. fst (smtp_send_message lib srv m) \<noteq> None"
  shows "steps_of (fst (for_each_email lib sender subject content atts len idx emails self))
      = concat (map given_up emails)"
proof (induction emails arbitrary: idx self)
  case Nil
  then show ?case by simp
next
  case (Cons email rest)
  then show ?case
    by (simp add: for_each_email_cons block_refused [OF assms] del: for_each_email.simps)
qed

lemma send_emails_steps:
  "steps_of (fst (send_emails lib self sender emails subject content atts))
     = steps_of (fst (for_each_email lib sender subject content atts (length emails) 0 emails self))"
  "sends_of (fst (send_emails lib self sender emails subject content atts))
     = sends_of (fst (for_each_email lib sender subject content atts (length emails) 0 emails self))"
  by (simp_all add: send_emails_events)

text \<open>
  Claim C2. The steps of a whole run are, for the recipients in the order of the list,
  one of four sequences each: the recipient is sent at the first, second or third
  attempt, or given up after the third. So no recipient gets more than three attempts,
  each failed attempt that another attempt follows is followed by a pause of 2, the
  same after the first failure and after the second, and no pause follows the third
  failure. No more than three messages for each recipient are handed to the relay. An
  error raised while the message is built uses up an attempt as an error from the relay
  does: when the message cannot be built, every recipient fails three times without
  a message being sent, and when the relay refuses every message every recipient fails
  three times too.
\<close>

theorem three_attempts_per_recipient:
  "(\<exists>ks. length ks = length emails
       \<and> steps_of (fst (send_emails lib self sender emails subject content attachments))
           = concat (map2 recipient_steps emails ks))
   \<and> length (sends_of (fst (send_emails lib self sender emails subject content attachments)))
       \<le> 3 * length emails
   \<and> ((\<forall>r \<in> set emails.
          \<exists>e. fst (create_message lib self sender r subject content attachments) = Inl e) \<longrightarrow>
        steps_of (fst (send_emails lib self sender emails subject content attachments))
          = concat (map given_up emails)
        \<and> sends_of (fst (send_emails lib self sender emails subject content attachments)) = [])
   \<and> ((\<forall>srv m. fst (smtp_send_message lib srv m) \<noteq> None) \<longrightarrow>
        steps_of (fst (send_emails lib self sender emails subject content attachments))
          = concat (map given_up emails))"
  unfolding send_emails_steps
  using loop_steps [of emails lib sender subject content attachments "length emails" 0 self]
    loop_sends [of lib sender subject content attachments "length emails" 0 emails self]
    loop_build_errors [of emails lib self sender subject content attachments "length emails" 0]
    loop_refused [of lib sender subject content attachments "length emails" 0 emails self]
  by blast

theorem three_attempts_per_recipient_witness:
  "steps_of (fst (send_emails (scripted []) \<lparr>debug_mode = False, smtp_server = Some []\<rparr>
        ''me@x.com'' [''a@x.com'', ''b@y.com''] ''Hello'' ''<p>Hi</p>''
        (Some [(''doc.pdf'', ''%PDF'')])))
     = given_up ''a@x.com'' @ given_up ''b@y.com''
   \<and> sends_of (fst (send_emails (scripted []) \<lparr>debug_mode = False, smtp_server = Some []\<rparr>
        ''me@x.com'' [''a@x.com'', ''b@y.com''] ''Hello'' ''<p>Hi</p>''
        (Some [(''doc.pdf'', ''%PDF'')])))
     = []
   \<and> steps_of (fst (send_emails refusing \<lparr>debug_mode = False, smtp_server = Some ()\<rparr>
        ''me@x.com'' [''a@x.com'', ''b@y.com''] ''Hello'' ''<p>Hi</p>'' (Some [])))
     = given_up ''a@x.com'' @ given_up ''b@y.com''"
proof -
  have build: "\<forall>r \<in> set [''a@x.com'', ''b@y.com''].
      \<exists>e. fst (create_message (scripted []) \<lparr>debug_mode = False, smtp_server = Some []\<rparr>
              ''me@x.com'' r ''Hello'' ''<p>Hi</p>'' (Some [(''doc.pdf'', ''%PDF'')])) = Inl e"
    by (simp add: create_message_def truthy_def mime_image_def scripted_def png_magic_def debug_def)
  have never: "\<forall>srv m. fst (smtp_send_message refusing srv m) \<noteq> None"
    by (simp add: refusing_def)
  from three_attempts_per_recipient [THEN conjunct2, THEN conjunct2, THEN conjunct1, THEN mp, OF build]
    three_attempts_per_recipient [THEN conjunct2, THEN conjunct2, THEN conjunct2, THEN mp, OF never,
      of "\<lparr>debug_mode = False, smtp_server = Some ()\<rparr>" "''me@x.com''" "[''a@x.com'', ''b@y.com'']"
      "''Hello''" "''<p>Hi</p>''" "Some []"]
  show ?thesis
    by simp
qed

lemma for_each_email_append:
  "fst (for_each_email lib sender subject content atts len idx (xs @ ys) self)
     = fst (for_each_email lib sender subject content atts len idx xs self)
       @ fst (for_each_email lib sender subject content atts len (idx + length xs) ys
               (snd (for_each_email lib sender subject content atts len idx xs self)))"
proof (induction xs arbitrary: idx self)
  case Nil
  then show ?case by simp
next
  case (Cons x xs)
  have snd_cons: "snd (for_each_email lib sender subject content atts len idx (x # xs) self)
      = snd (for_each_email lib sender subject content atts len (Suc idx) xs
              (snd (send_with_retries lib sender x subject content atts idx len 3 self)))"
    by (simp split: prod.splits)
  show ?case
    using Cons [of "Suc idx" "snd (send_with_retries lib sender x subject content atts idx len 3 self)"]
    by (simp only: append_Cons for_each_email_cons snd_cons append_assoc length_Cons add_Suc_right
        add_Suc)
qed

lemma block_recovery:
  assumes "fst (create_message lib self sender email subject content attachments) = Inr m"
    and "smtp_server self = Some s0"
    and "smtp_send_message lib s0 m = (Some e1, s1)"
    and "smtp_send_message lib s1 m = (Some e2, s2)"
    and "smtp_send_message lib s2 m = (None, s3)"
  shows "outcomes (fst (send_with_retries lib sender email subject content attachments idx len 3 self))
       = [(email, True)]"
    and "progress_of (fst (send_with_retries lib sender email subject content attachments idx len 3 self))
       = [of_nat (idx + 1) / of_nat len]"
    and "steps_of (fst (send_with_retries lib sender email subject content attachments idx len 3 self))
       = sent_after email 2"
    and "snd (send_with_retries lib sender email subject content attachments idx len 3 self)
       = self\<lparr>smtp_server := Some s3\<rparr>"
proof -
  let ?self1 = "self\<lparr>smtp_server := Some s1\<rparr>"
  let ?self2 = "self\<lparr>smtp_server := Some s2\<rparr>"
  let ?self3 = "self\<lparr>smtp_server := Some s3\<rparr>"
  have build: "fst (create_message lib x sender email subject content attachments) = Inr m"
    for x :: "'a automation"
    using assms(1) create_message_any_state [of lib x sender email subject content attachments self]
    by simp
  obtain v1 where a1: "attempt lib self sender email subject content attachments
      = (Some e1, ?self1, v1)"
    using attempt_result [OF build assms(2,3)] by blast
  obtain v2 where a2: "attempt lib ?self1 sender email subject content attachments
      = (Some e2, ?self2, v2)"
    using attempt_result [OF build _ assms(4), of ?self1] by auto
  obtain v3 where a3: "attempt lib ?self2 sender email subject content attachments
      = (None, ?self3, v3)"
    using attempt_result [OF build _ assms(5), of ?self2] by auto
  note others = block_step [OF a1, of idx len "Suc (Suc 0)"] block_step [OF a2, of idx len "Suc 0"]
    block_step [OF a3, of idx len 0]
  note steps = block_step_steps [OF a1, of idx len "Suc (Suc 0)"]
    block_step_steps [OF a2, of idx len "Suc 0"] block_step_steps [OF a3, of idx len 0]
  show "outcomes (fst (send_with_retries lib sender email subject content attachments idx len 3 self))
       = [(email, True)]"
    by (simp add: numeral_3_eq_3 others(2,7,12))
  show "progress_of (fst (send_with_retries lib sender email subject content attachments idx len 3 self))
       = [of_nat (idx + 1) / of_nat len]"
    by (simp add: numeral_3_eq_3 others(3,8,13))
  show "steps_of (fst (send_with_retries lib sender email subject content attachments idx len 3 self))
       = sent_after email 2"
    by (simp add: numeral_3_eq_3 steps sent_after_def numeral_2_eq_2)
  show "snd (send_with_retries lib sender email subject content attachments idx len 3 self)
       = ?self3"
    by (simp add: numeral_3_eq_3 others(5,10,15))
qed

text \<open>
  Claim C8. Take a run and a recipient of its list, and let the relay, in the state in
  which the loop reaches this recipient, refuse the message twice and accept it the
  third time. Then the log records the recipient as sent, its progress fraction is
  emitted, and the steps of the run are those for the recipients before, then two
  failed attempts with a pause of 2 after each, the send and a pause of 1, then the
  steps for the recipients after, made on the connection as the third call left it. In
  every run the recipients recorded as sent are those with fewer than three failed
  attempts, and the last step for each of them is the pause of 1 after the send.
\<close>

theorem retry_recovery:
  assumes "fst (create_message lib self sender email subject content attachments) = Inr m"
    and "smtp_server (snd (for_each_email lib sender subject content attachments
            (length (pre @ email # post)) 0 pre self)) = Some s0"
    and "smtp_send_message lib s0 m = (Some e1, s1)"
    and "smtp_send_message lib s1 m = (Some e2, s2)"
    and "smtp_send_message lib s2 m = (None, s3)"
  shows "length pre < length (outcomes (fst (send_emails lib self sender (pre @ email # post)
                                                subject content attachments)))
     \<and> outcomes (fst (send_emails lib self sender (pre @ email # post) subject content attachments))
           ! length pre = (email, True)
     \<and> of_nat (length pre + 1) / of_nat (length (pre @ email # post))
         \<in> set (progress_of (fst (send_emails lib self sender (pre @ email # post)
                                     subject content attachments)))
     \<and> steps_of (fst (send_emails lib self sender (pre @ email # post) subject content attachments))
         = steps_of (fst (for_each_email lib sender subject content attachments
                            (length (pre @ email # post)) 0 pre self))
           @ sent_after email 2
           @ steps_of (fst (for_each_email lib sender subject content attachments
                              (length (pre @ email # post)) (Suc (length pre)) post
                              ((snd (for_each_email lib sender subject content attachments
                                       (length (pre @ email # post)) 0 pre self))
                                 \<lparr>smtp_server := Some s3\<rparr>)))
     \<and> (\<exists>ks. length ks = length (pre @ email # post)
           \<and> steps_of (fst (send_emails lib self sender (pre @ email # post) subject content
                               attachments))
               = concat (map2 recipient_steps (pre @ email # post) ks)
           \<and> outcomes (fst (send_emails lib self sender (pre @ email # post) subject content
                               attachments))
               = map2 (\<lambda>r k. (r, k < 3)) (pre @ email # post) ks)"
proof -
  let ?n = "length (pre @ email # post)"
  let ?before = "for_each_email lib sender subject content attachments ?n 0 pre self"
  let ?blk = "send_with_retries lib sender email subject content attachments (length pre) ?n 3
     (snd ?before)"
  let ?after = "for_each_email lib sender subject content attachments ?n (Suc (length pre)) post
     ((snd ?before)\<lparr>smtp_server := Some s3\<rparr>)"
  let ?loop = "for_each_email lib sender subject content attachments ?n 0 (pre @ email # post) self"
  have build: "fst (create_message lib (snd ?before) sender email subject content attachments) = Inr m"
    using assms(1)
      create_message_any_state [of lib "snd ?before" sender email subject content attachments self]
    by simp
  note blk = block_recovery [OF build assms(2-5), of "length pre" ?n]
  have split: "fst ?loop = fst ?before @ fst ?blk @ fst ?after"
    using for_each_email_append [of lib sender subject content attachments ?n 0 pre "email # post" self]
    by (simp only: for_each_email_cons blk(4) add_0)
  have before: "length (outcomes (fst ?before)) = length pre"
    using loop_outcomes [of lib sender subject content attachments ?n 0 pre self]
    by (metis length_map)
  have out: "outcomes (fst ?loop) = outcomes (fst ?before) @ (email, True) # outcomes (fst ?after)"
    by (simp only: split outcomes_simps blk(1) append_Cons append_Nil)
  have "outcomes (fst ?loop) ! length pre = (email, True)"
    unfolding out using before by (metis nth_append_length)
  moreover have "length pre < length (outcomes (fst ?loop))"
    unfolding out using before by simp
  moreover have "progress_of (fst ?loop) = progress_of (fst ?before)
      @ (of_nat (length pre + 1) / of_nat ?n) # progress_of (fst ?after)"
    by (simp only: split progress_of_simps blk(2) append_Cons append_Nil)
  then have "of_nat (length pre + 1) / of_nat ?n \<in> set (progress_of (fst ?loop))"
    by simp
  moreover have "steps_of (fst ?loop)
      = steps_of (fst ?before) @ sent_after email 2 @ steps_of (fst ?after)"
    by (simp only: split steps_of_simps blk(3))
  moreover note loop_steps [of "pre @ email # post" lib sender subject content attachments ?n 0 self]
  ultimately show ?thesis
    by (simp only: send_emails_read send_emails_steps set_simps insert_iff simp_thms)
qed

theorem retry_recovery_witness:
  "outcomes (fst (send_emails (scripted [True, False, False, True])
        \<lparr>debug_mode = False, smtp_server = Some [True, False, False, True]\<rparr>
        ''me@x.com'' [''a@x.com'', ''b@y.com''] ''Hello'' ''<p>Hi</p>'' (Some []))) ! 1
     = (''b@y.com'', True)
   \<and> 1 \<in> set (progress_of (fst (send_emails (scripted [True, False, False, True])
        \<lparr>debug_mode = False, smtp_server = Some [True, False, False, True]\<rparr>
        ''me@x.com'' [''a@x.com'', ''b@y.com''] ''Hello'' ''<p>Hi</p>'' (Some []))))
   \<and> steps_of (fst (send_emails (scripted [True, False, False, True])
        \<lparr>debug_mode = False, smtp_server = Some [True, False, False, True]\<rparr>
        ''me@x.com'' [''a@x.com'', ''b@y.com''] ''Hello'' ''<p>Hi</p>'' (Some [])))
     = sent_after ''a@x.com'' 0 @ sent_after ''b@y.com'' 2"
proof -
  let ?lib = "scripted [True, False, False, True]"
  let ?self = "\<lparr>debug_mode = False, smtp_server = Some [True, False, False, True]\<rparr>"
  let ?m = "\<lparr>headers = [(''Content-Type'', ''multipart/mixed''), (''MIME-Version'', ''1.0''),
                (''From'', ''me@x.com''), (''To'', ''b@y.com''), (''Subject'', ''Hello'')],
      payload = [MIMEText ''<p>Hi</p>'' ''html'']\<rparr>"
  have build: "fst (create_message ?lib ?self ''me@x.com'' ''b@y.com'' ''Hello'' ''<p>Hi</p>'' (Some []))
      = Inr ?m"
    by (simp add: create_message_def truthy_def MIMEMultipart_def set_item_def attach_def)
  have state: "smtp_server (snd (for_each_email ?lib ''me@x.com'' ''Hello'' ''<p>Hi</p>'' (Some [])
      (length ([''a@x.com''] @ ''b@y.com'' # [])) 0 [''a@x.com''] ?self)) = Some [False, False, True]"
    by code_simp
  have s1: "smtp_send_message ?lib [False, False, True] ?m
      = (Some (LibraryError ''refused''), [False, True])"
    and s2: "smtp_send_message ?lib [False, True] ?m = (Some (LibraryError ''refused''), [True])"
    and s3: "smtp_send_message ?lib [True] ?m = (None, [])"
    by (simp_all add: scripted_def)
  have first: "steps_of (fst (for_each_email ?lib ''me@x.com'' ''Hello'' ''<p>Hi</p>'' (Some [])
      (length ([''a@x.com''] @ ''b@y.com'' # [])) 0 [''a@x.com''] ?self)) = sent_after ''a@x.com'' 0"
    by code_simp
  from retry_recovery [OF build state s1 s2 s3] first
  show ?thesis
    by simp
qed

subsection \<open>Extraction keeps the order of the rows\<close>

text \<open>
  When every data row reaches the email column, as every row with at least as many
  fields as the header does, extraction returns the stripped fields that pass the
  validator, in the order of the rows, and logs one warning for each field that does
  not, in that order too.
\<close>

lemma validate_rows_complete:
  assumes "\<forall>row \<in> set rows. row \<noteq> [] \<longrightarrow> email_field names column row \<noteq> None"
  shows "validate_rows names column rows acc
      = (Inr (acc @ filter is_valid_email
                (List.map_filter (email_field names column) (filter (\<lambda>row. row \<noteq> []) rows))),
         map (\<lambda>e. LogWarning (InvalidEmailFound e))
           (filter (\<lambda>e. \<not> is_valid_email e)
              (List.map_filter (email_field names column) (filter (\<lambda>row. row \<noteq> []) rows))))"
  using assms
proof (induction rows arbitrary: acc)
  case Nil
  then show ?case by (simp add: List.map_filter_simps)
next
  case (Cons row rows)
  show ?case
  proof (cases "row = []")
    case True
    with Cons show ?thesis by simp
  next
    case False
    with Cons.prems obtain field where f: "dict_row names row column = Some (Some field)"
      by (auto simp: email_field_def split: option.splits)
    then have e: "email_field names column row = Some (strip field)"
      by (simp add: email_field_def)
    from Cons have ih: "validate_rows names column rows acc'
      = (Inr (acc' @ filter is_valid_email
                (List.map_filter (email_field names column) (filter (\<lambda>row. row \<noteq> []) rows))),
         map (\<lambda>e. LogWarning (InvalidEmailFound e))
           (filter (\<lambda>e. \<not> is_valid_email e)
              (List.map_filter (email_field names column) (filter (\<lambda>row. row \<noteq> []) rows))))"
      for acc'
      by simp
    show ?thesis
      by (simp add: False f e ih List.map_filter_simps Let_def)
  qed
qed

lemma email_column_not_empty: "find_email_column header = Some column \<Longrightarrow> column \<noteq> []"
  using find_email_column_first [of header column] by (auto simp: lower_def)

lemma extraction_keeps_order:
  assumes "find_email_column header = Some column"
    and "\<forall>row \<in> set (data_rows (header # rows)). email_field header column row \<noteq> None"
  shows "read_csv_content self (header # rows)
      = (Inr (filter is_valid_email
                (List.map_filter (email_field header column) (data_rows (header # rows)))),
         debug self ReadingCsv
           @ map (\<lambda>e. LogWarning (InvalidEmailFound e))
               (filter (\<lambda>e. \<not> is_valid_email e)
                  (List.map_filter (email_field header column) (data_rows (header # rows))))
           @ debug self (FoundValidEmails (length (filter is_valid_email
                (List.map_filter (email_field header column) (data_rows (header # rows)))))))"
proof -
  from assms(2) have "\<forall>row \<in> set rows. row \<noteq> [] \<longrightarrow> email_field header column row \<noteq> None"
    by (simp add: data_rows_def)
  from validate_rows_complete [OF this, of "[]"] assms(1) email_column_not_empty [OF assms(1)]
  show ?thesis
    by (simp add: read_csv_content_def read_csv_try_def fieldnames_def data_rows_def)
qed

lemma full_row_has_field:
  assumes "column \<in> set names" and "length names \<le> length row"
  shows "email_field names column row \<noteq> None"
proof -
  let ?ps = "zip names (map Some row @ replicate (length names - length row) None)"
  from assms have "column \<in> fst ` set (rev ?ps)"
    by (simp add: set_zip image_iff) (metis in_set_conv_nth)
  then obtain v where v: "map_of (rev ?ps) column = Some v"
    by (metis map_of_eq_None_iff not_None_eq)
  then have "(column, v) \<in> set ?ps"
    by (metis map_of_SomeD set_rev)
  with assms(2) have "v \<in> Some ` set row"
    by (auto dest: set_zip_rightD)
  with v show ?thesis
    by (auto simp: email_field_def dict_row_def)
qed

lemma map_of_rev_last:
  assumes "j < length xs" and "fst (xs ! j) = k"
    and "\<forall>i. j < i \<and> i < length xs \<longrightarrow> fst (xs ! i) \<noteq> k"
  shows "map_of (rev xs) k = Some (snd (xs ! j))"
  using assms
proof (induction xs rule: rev_induct)
  case Nil
  then show ?case by simp
next
  case (snoc y ys)
  show ?case
  proof (cases "j = length ys")
    case True
    with snoc.prems(2) show ?thesis
      by (cases y) auto
  next
    case False
    with snoc.prems(1) have j: "j < length ys"
      by simp
    from snoc.prems(3) j have "fst ((ys @ [y]) ! length ys) \<noteq> k"
      by (metis length_append_singleton lessI)
    then have y: "fst y \<noteq> k"
      by simp
    have "\<forall>i. j < i \<and> i < length ys \<longrightarrow> fst (ys ! i) \<noteq> k"
      using snoc.prems(3) by (metis length_append_singleton less_Suc_eq nth_append)
    with snoc.IH j snoc.prems(2) have "map_of (rev ys) k = Some (snd (ys ! j))"
      by (simp add: nth_append)
    with y j show ?thesis
      by (cases y) (auto simp: nth_append)
  qed
qed

lemma dict_row_last:
  assumes "j < length names" and "names ! j = c"
    and "\<forall>k. j < k \<and> k < length names \<longrightarrow> names ! k \<noteq> c"
    and "j < length row"
  shows "dict_row names row c = Some (Some (row ! j))"
proof -
  let ?vals = "map Some row @ replicate (length names - length row) None"
  let ?ps = "zip names ?vals"
  have len: "length ?ps = length names"
    by simp
  have at: "?ps ! i = (names ! i, ?vals ! i)" if "i < length names" for i
    using that by simp
  have "map_of (rev ?ps) c = Some (snd (?ps ! j))"
  proof (rule map_of_rev_last)
    show "j < length ?ps"
      using assms(1) by simp
    show "fst (?ps ! j) = c"
      using assms(1,2) by (simp only: at fst_conv)
    show "\<forall>i. j < i \<and> i < length ?ps \<longrightarrow> fst (?ps ! i) \<noteq> c"
      using assms(3) by (simp only: len) (metis at fst_conv)
  qed
  moreover have "snd (?ps ! j) = Some (row ! j)"
    using assms(1,4) by (simp only: at snd_conv) (simp add: nth_append)
  ultimately show ?thesis
    by (simp add: dict_row_def)
qed

lemma map_filter_total:
  assumes "\<forall>x \<in> set xs. f x = Some (g x)"
  shows "List.map_filter f xs = map g xs"
  using assms by (induction xs) (simp_all add: List.map_filter_simps)

lemma extraction_reads_last_of_name:
  assumes "i < length header" and "names_email (header ! i)"
    and "\<forall>k < i. \<not> names_email (header ! k)"
    and "j < length header" and "header ! j = header ! i"
    and "\<forall>k. j < k \<and> k < length header \<longrightarrow> header ! k \<noteq> header ! i"
    and "\<forall>row \<in> set (data_rows (header # rows)). j < length row"
  shows "find_email_column header = Some (header ! i)"
    and "read_csv_content self (header # rows)
      = (Inr (filter is_valid_email (map (\<lambda>row. strip (row ! j)) (data_rows (header # rows)))),
         debug self ReadingCsv
           @ map (\<lambda>e. LogWarning (InvalidEmailFound e))
               (filter (\<lambda>e. \<not> is_valid_email e)
                  (map (\<lambda>row. strip (row ! j)) (data_rows (header # rows))))
           @ debug self (FoundValidEmails (length (filter is_valid_email
                (map (\<lambda>row. strip (row ! j)) (data_rows (header # rows)))))))"
proof -
  show col: "find_email_column header = Some (header ! i)"
    using assms(1-3) find_email_column_first [of header "header ! i"]
    by (auto simp: contains_email_iff)
  have field: "email_field header (header ! i) row = Some (strip (row ! j))"
    if "row \<in> set (data_rows (header # rows))" for row
    using dict_row_last [OF assms(4,5,6), of row] assms(7) that
    by (simp add: email_field_def)
  then have all: "\<forall>row \<in> set (data_rows (header # rows)). email_field header (header ! i) row \<noteq> None"
    by simp
  have "List.map_filter (email_field header (header ! i)) (data_rows (header # rows))
      = map (\<lambda>row. strip (row ! j)) (data_rows (header # rows))"
    by (rule map_filter_total) (use field in blast)
  with extraction_keeps_order [OF col all, of self]
  show "read_csv_content self (header # rows)
      = (Inr (filter is_valid_email (map (\<lambda>row. strip (row ! j)) (data_rows (header # rows)))),
         debug self ReadingCsv
           @ map (\<lambda>e. LogWarning (InvalidEmailFound e))
               (filter (\<lambda>e. \<not> is_valid_email e)
                  (map (\<lambda>row. strip (row ! j)) (data_rows (header # rows))))
           @ debug self (FoundValidEmails (length (filter is_valid_email
                (map (\<lambda>row. strip (row ! j)) (data_rows (header # rows)))))))"
    by simp
qed

text \<open>
  Claim C5, as stated: extraction selects the first column whose name contains
  \<open>email\<close>. It selects the name of that column and looks each row up under the name,
  so with two columns of that name it reads the second: from the row below it returns
  the address of the second column, not that of the first.
\<close>

theorem first_column_counterexample:
  "find_email_column [''Email'', ''Email''] = Some ''Email''
   \<and> fst (read_csv_content \<lparr>debug_mode = False, smtp_server = (None :: unit option)\<rparr>
          [ [''Email'', ''Email''], [''first@x.com'', ''second@y.com''] ])
       = Inr [''second@y.com'']
   \<and> fst (read_csv_content \<lparr>debug_mode = False, smtp_server = (None :: unit option)\<rparr>
          [ [''Email'', ''Email''], [''first@x.com'', ''second@y.com''] ])
       \<noteq> Inr [''first@x.com'']"
  by code_simp

text \<open>
  Claim C5, amended. When no name of the header contains \<open>email\<close>, in whatever case,
  extraction raises the error \<open>No email column found in CSV\<close>, and a run started from
  such a table ends after reporting it: no connection is opened and no message is built
  or sent. Otherwise extraction takes the name of the first column, in column order,
  whose name contains \<open>email\<close>, and reads from every row the field of the last column
  that carries this name, which is that first column itself when no later column
  repeats its name: on a table whose data rows reach that column it returns the
  stripped fields of that column that pass the validator, in the order of the rows,
  with a warning for each of the others.
\<close>

theorem email_column_read:
  "((\<forall>c \<in> set header. \<not> names_email c) \<longrightarrow>
        read_csv_content self (header # rows)
          = (Inl (ValueError ''No email column found in CSV''),
             debug self ReadingCsv
               @ [LogError (ErrorReadingCsv (ValueError ''No email column found in CSV''))])
        \<and> (subj \<noteq> [] \<and> body \<noteq> [] \<and> logging_setup (lib :: 's library) = None \<longrightarrow>
             main lib password
               \<lparr>debug_box = d, csv_file = Some (header # rows), attachment_files = files,
                subject_input = subj, content_input = body\<rparr>
               = (None,
                  debug \<lparr>debug_mode = d, smtp_server = (None :: 's option)\<rparr> ReadingCsv
                    @ [LogError (ErrorReadingCsv (ValueError ''No email column found in CSV'')),
                       StError (AnErrorOccurred (ValueError ''No email column found in CSV'')),
                       RootLogError (CriticalError (ValueError ''No email column found in CSV''))])))
   \<and> (i < length header \<and> names_email (header ! i) \<and> (\<forall>k < i. \<not> names_email (header ! k))
        \<and> j < length header \<and> header ! j = header ! i
        \<and> (\<forall>k. j < k \<and> k < length header \<longrightarrow> header ! k \<noteq> header ! i)
        \<and> (\<forall>row \<in> set (data_rows (header # rows)). j < length row) \<longrightarrow>
        find_email_column header = Some (header ! i)
        \<and> read_csv_content self (header # rows)
          = (Inr (filter is_valid_email (map (\<lambda>row. strip (row ! j)) (data_rows (header # rows)))),
             debug self ReadingCsv
               @ map (\<lambda>e. LogWarning (InvalidEmailFound e))
                   (filter (\<lambda>e. \<not> is_valid_email e)
                      (map (\<lambda>row. strip (row ! j)) (data_rows (header # rows))))
               @ debug self (FoundValidEmails (length (filter is_valid_email
                    (map (\<lambda>row. strip (row ! j)) (data_rows (header # rows))))))))"
proof -
  have run: "main lib password
               \<lparr>debug_box = d, csv_file = Some (header # rows), attachment_files = files,
                subject_input = subj, content_input = body\<rparr>
               = (None,
                  debug \<lparr>debug_mode = d, smtp_server = (None :: 's option)\<rparr> ReadingCsv
                    @ [LogError (ErrorReadingCsv (ValueError ''No email column found in CSV'')),
                       StError (AnErrorOccurred (ValueError ''No email column found in CSV'')),
                       RootLogError (CriticalError (ValueError ''No email column found in CSV''))])"
    if "\<forall>c \<in> set header. \<not> names_email c" "subj \<noteq> [] \<and> body \<noteq> [] \<and> logging_setup lib = None"
    using that(2)
    by (simp add: main_def main_try_def main_finally_def main_except_def Let_def
        read_csv_no_column [OF that(1)])
  show ?thesis
    using run read_csv_no_column [of header self rows]
      extraction_reads_last_of_name(1) [of i header j rows]
      extraction_reads_last_of_name(2) [of i header j rows self]
    by blast
qed

theorem email_column_read_witness:
  "fst (read_csv_content \<lparr>debug_mode = False, smtp_server = (None :: bool list option)\<rparr>
          [ [''Name'', ''Email Address''], [''Ann'', '' a@x.com ''], [''Bob'', ''bad''],
            [''Cy'', ''b@y.com''] ])
     = Inr [''a@x.com'', ''b@y.com'']
   \<and> fst (read_csv_content \<lparr>debug_mode = False, smtp_server = (None :: bool list option)\<rparr>
          [ [''Email'', ''Work email'', ''Email''], [''a@x.com'', ''b@x.com'', ''c@x.com''] ])
     = Inr [''c@x.com'']
   \<and> \<not> names_email ''Name'' \<and> \<not> names_email ''Phone''
   \<and> main (scripted []) ''secret''
        \<lparr>debug_box = False, csv_file = Some [ [''Name'', ''Phone''], [''Ann'', ''1''] ],
         attachment_files = [], subject_input = ''Hello'', content_input = ''<p>Hi</p>''\<rparr>
       = (None,
          [LogError (ErrorReadingCsv (ValueError ''No email column found in CSV'')),
           StError (AnErrorOccurred (ValueError ''No email column found in CSV'')),
           RootLogError (CriticalError (ValueError ''No email column found in CSV''))])"
proof -
  let ?self = "\<lparr>debug_mode = False, smtp_server = (None :: bool list option)\<rparr>"
  have a: "\<not> sublist ''email'' (lower ''Name'')" and b: "\<not> sublist ''email'' (lower ''Phone'')"
    and c: "sublist ''email'' (lower ''Email Address'')" and e: "sublist ''email'' (lower ''Email'')"
    by code_simp+
  have valid: "is_valid_email ''a@x.com''" "is_valid_email ''b@y.com''" "\<not> is_valid_email ''bad''"
    "is_valid_email ''c@x.com''"
    by code_simp+
  have strips: "strip '' a@x.com '' = ''a@x.com''" "strip ''bad'' = ''bad''"
    "strip ''b@y.com'' = ''b@y.com''" "strip ''c@x.com'' = ''c@x.com''"
    by code_simp+
  have h1: "1 < length [''Name'', ''Email Address''] \<and> names_email ([''Name'', ''Email Address''] ! 1)
      \<and> (\<forall>k < 1. \<not> names_email ([''Name'', ''Email Address''] ! k))
      \<and> 1 < length [''Name'', ''Email Address'']
      \<and> [''Name'', ''Email Address''] ! 1 = [''Name'', ''Email Address''] ! 1
      \<and> (\<forall>k. 1 < k \<and> k < length [''Name'', ''Email Address'']
            \<longrightarrow> [''Name'', ''Email Address''] ! k \<noteq> [''Name'', ''Email Address''] ! 1)
      \<and> (\<forall>row \<in> set (data_rows ([''Name'', ''Email Address'']
              # [ [''Ann'', '' a@x.com ''], [''Bob'', ''bad''], [''Cy'', ''b@y.com''] ])). 1 < length row)"
    using a c by (simp add: contains_email_iff data_rows_def)
  have h2: "0 < length [''Email'', ''Work email'', ''Email'']
      \<and> names_email ([''Email'', ''Work email'', ''Email''] ! 0)
      \<and> (\<forall>k < 0. \<not> names_email ([''Email'', ''Work email'', ''Email''] ! k))
      \<and> 2 < length [''Email'', ''Work email'', ''Email'']
      \<and> [''Email'', ''Work email'', ''Email''] ! 2 = [''Email'', ''Work email'', ''Email''] ! 0
      \<and> (\<forall>k. 2 < k \<and> k < length [''Email'', ''Work email'', ''Email'']
            \<longrightarrow> [''Email'', ''Work email'', ''Email''] ! k \<noteq> [''Email'', ''Work email'', ''Email''] ! 0)
      \<and> (\<forall>row \<in> set (data_rows ([''Email'', ''Work email'', ''Email'']
              # [ [''a@x.com'', ''b@x.com'', ''c@x.com''] ])). 2 < length row)"
    using e by (simp add: contains_email_iff data_rows_def)
  have none: "\<forall>c \<in> set [''Name'', ''Phone'']. \<not> names_email c"
    using a b by (simp add: contains_email_iff)
  have lib: "''Hello'' \<noteq> [] \<and> ''<p>Hi</p>'' \<noteq> [] \<and> logging_setup (scripted []) = None"
    by (simp add: scripted_def)
  have w1: "fst (read_csv_content ?self
          [ [''Name'', ''Email Address''], [''Ann'', '' a@x.com ''], [''Bob'', ''bad''],
            [''Cy'', ''b@y.com''] ]) = Inr [''a@x.com'', ''b@y.com'']"
    using email_column_read [THEN conjunct2, THEN mp, OF h1, THEN conjunct2, of ?self]
    by (simp add: data_rows_def valid strips)
  have w2: "fst (read_csv_content ?self
          [ [''Email'', ''Work email'', ''Email''], [''a@x.com'', ''b@x.com'', ''c@x.com''] ])
      = Inr [''c@x.com'']"
    using email_column_read [THEN conjunct2, THEN mp, OF h2, THEN conjunct2, of ?self]
    by (simp add: data_rows_def valid strips)
  have w3: "main (scripted []) ''secret''
        \<lparr>debug_box = False, csv_file = Some [ [''Name'', ''Phone''], [''Ann'', ''1''] ],
         attachment_files = [], subject_input = ''Hello'', content_input = ''<p>Hi</p>''\<rparr>
       = (None,
          debug \<lparr>debug_mode = False, smtp_server = (None :: bool list option)\<rparr> ReadingCsv
          @ [LogError (ErrorReadingCsv (ValueError ''No email column found in CSV'')),
           StError (AnErrorOccurred (ValueError ''No email column found in CSV'')),
           RootLogError (CriticalError (ValueError ''No email column found in CSV''))])"
    by (rule email_column_read [THEN conjunct1, THEN mp, OF none, THEN conjunct2, THEN mp, OF lib])
  show ?thesis
    using w1 w2 w3 none by (simp add: debug_def)
qed

text \<open>
  Claim C4. A data row too short to reach the email column gets \<open>None\<close> for it from
  \<open>csv.DictReader\<close>, and \<open>None.strip()\<close> raises: the row is not skipped with a
  warning, extraction logs the error and raises it again. On the tables without such a
  row the claim holds (\<open>extraction_keeps_order\<close>, \<open>full_row_has_field\<close>).
\<close>

theorem short_row_raises:
  "read_csv_content self [ [''Name'', ''Email''], [''Bob'']]
     = (Inl (AttributeError ''NoneType object has no attribute strip''),
        debug self ReadingCsv
          @ [LogError (ErrorReadingCsv (AttributeError ''NoneType object has no attribute strip''))])"
proof -
  have col: "find_email_column [''Name'', ''Email''] = Some ''Email''"
    by code_simp
  have row: "dict_row [''Name'', ''Email''] [''Bob''] ''Email'' = Some None"
    by (simp add: dict_row_def)
  show ?thesis
    by (simp add: read_csv_content_def read_csv_try_def fieldnames_def col row
        del: find_email_column.simps)
qed

subsection \<open>Closing the connection\<close>

text \<open>
  Nothing before the \<open>finally\<close> block quits the connection. Once \<open>automation\<close> is
  assigned, the \<open>finally\<close> block quits the connection that was assigned to it, once, as
  the last event of the run, however the \<open>try\<close> block ended; with no connection
  assigned it does nothing and nothing is raised.
\<close>

lemma attach_files_no_quit:
  assumes "attach_files lib atts m = (r, evs)"
  shows "SmtpQuit \<notin> set evs"
  using attach_files_events [OF assms] by (cases r) auto

lemma create_message_no_quit:
  assumes "create_message lib self sender recipient subject content attachments = (r, evs)"
  shows "SmtpQuit \<notin> set evs"
proof -
  let ?m = "attach (MIMEText content ''html'')
     (set_item ''Subject'' subject (set_item ''To'' recipient (set_item ''From'' sender MIMEMultipart)))"
  let ?l = "case attachments of None \<Rightarrow> [] | Some l \<Rightarrow> l"
  obtain r' evs' where af: "attach_files lib ?l ?m = (r', evs')"
    by (cases "attach_files lib ?l ?m")
  have "evs = debug self (CreatingMessageFor recipient) @ evs'
      \<or> evs = debug self (CreatingMessageFor recipient)"
    using assms by (auto simp: create_message_def af Let_def split: if_splits)
  then show ?thesis
    using attach_files_no_quit [OF af] by (auto simp: debug_def)
qed

lemma attempt_no_quit:
  assumes "attempt lib self sender email subject content attachments = (r, self1, evs)"
  shows "SmtpQuit \<notin> set evs"
proof (cases "create_message lib self sender email subject content attachments")
  case (Pair b evs0)
  note quiet = create_message_no_quit [OF Pair]
  show ?thesis
  proof (cases b)
    case (Inl e)
    with Pair assms quiet show ?thesis
      by (auto simp: attempt_def)
  next
    case (Inr m)
    with Pair assms have "evs = evs0 \<or> evs = evs0 @ [SmtpSendMessage m]"
      by (auto simp: attempt_def send_message_def split: option.splits prod.splits)
    with quiet show ?thesis
      by auto
  qed
qed

lemma send_with_retries_no_quit:
  "SmtpQuit \<notin> set (fst (send_with_retries lib sender email subject content atts idx len k self))"
proof (induction k arbitrary: self)
  case 0
  then show ?case by simp
next
  case (Suc k)
  obtain r s1 evs where a: "attempt lib self sender email subject content atts = (r, s1, evs)"
    by (metis prod_cases3)
  show ?case
    using attempt_no_quit [OF a] Suc [of s1]
    by (cases r) (auto simp: send_with_retries.simps(2) a debug_def split: prod.splits)
qed

lemma for_each_email_no_quit:
  "SmtpQuit \<notin> set (fst (for_each_email lib sender subject content atts len idx emails self))"
proof (induction emails arbitrary: idx self)
  case Nil
  then show ?case by simp
next
  case (Cons email rest)
  then show ?case
    by (simp add: for_each_email_cons send_with_retries_no_quit del: for_each_email.simps)
qed

lemma send_emails_no_quit:
  "SmtpQuit \<notin> set (fst (send_emails lib self sender emails subject content atts))"
  by (simp add: send_emails_events for_each_email_no_quit debug_def)

lemma validate_rows_no_quit:
  "SmtpQuit \<notin> set (snd (validate_rows names column rows acc))"
proof (induction rows arbitrary: acc)
  case Nil
  then show ?case by simp
next
  case (Cons row rows)
  obtain r evs where v: "validate_rows names column rows acc = (r, evs)"
    by (cases "validate_rows names column rows acc")
  with Cons [of acc] have "SmtpQuit \<notin> set evs"
    by simp
  with v Cons show ?case
    by (auto simp: Let_def split: option.splits)
qed

lemma read_csv_content_no_quit: "SmtpQuit \<notin> set (snd (read_csv_content self table))"
proof -
  have "SmtpQuit \<notin> set (snd (read_csv_try table))"
    using validate_rows_no_quit by (auto simp: read_csv_try_def split: option.splits)
  then show ?thesis
    by (auto simp: read_csv_content_def debug_def split: prod.splits sum.splits)
qed

lemma setup_smtp_no_quit: "SmtpQuit \<notin> set (snd (snd (setup_smtp lib self email password)))"
  by (auto simp: setup_smtp_def debug_def split: sum.splits prod.splits option.splits)

lemma setup_smtp_server:
  "smtp_server (fst (snd (setup_smtp lib self email password)))
     = (case smtp_open lib ''smtp.gmail.com'' 587 of
          Inl e \<Rightarrow> smtp_server self
        | Inr srv \<Rightarrow> Some (snd (case smtp_starttls lib srv of
             (Some e, srv1) \<Rightarrow> (Some e, srv1)
           | (None, srv1) \<Rightarrow> smtp_login lib srv1 email password)))"
  by (auto simp: setup_smtp_def split: sum.splits prod.splits option.splits)

lemma main_try_no_quit: "SmtpQuit \<notin> set (snd (snd (main_try lib password inp)))"
proof -
  note quiet = read_csv_content_no_quit setup_smtp_no_quit send_emails_no_quit
  show ?thesis
    unfolding main_try_def Let_def
    by (auto split: option.splits prod.splits sum.splits if_splits)
      (metis quiet snd_conv fst_conv)+
qed

lemma main_closes_once:
  assumes "main_try lib password inp = (raised, Some a, evs)"
  shows "snd (main lib password inp)
      = evs @ main_except raised @ (if smtp_server a = None then [] else [SmtpQuit])"
    and "SmtpQuit \<notin> set (evs @ main_except raised)"
    and "smtp_server a = None \<Longrightarrow> fst (main lib password inp) = None"
proof -
  show "snd (main lib password inp)
      = evs @ main_except raised @ (if smtp_server a = None then [] else [SmtpQuit])"
    by (auto simp: main_def assms main_finally_def split: option.splits)
  show "SmtpQuit \<notin> set (evs @ main_except raised)"
    using main_try_no_quit [of lib password inp]
    by (auto simp: assms main_except_def split: option.splits)
  show "fst (main lib password inp) = None" if "smtp_server a = None"
    using that by (simp add: main_def assms main_finally_def)
qed

text \<open>
  Claim C7. When the button is pressed without an uploaded table, \<open>main\<close> returns from
  inside the \<open>try\<close> block before \<open>automation\<close> is assigned, and the \<open>finally\<close> block,
  which reads \<open>automation.smtp_server\<close>, raises. On the paths that do assign
  \<open>automation\<close> the claim holds (\<open>main_closes_once\<close>).
\<close>

theorem main_without_upload_raises:
  "main lib password
     \<lparr>debug_box = d, csv_file = None, attachment_files = fs, subject_input = s, content_input = c\<rparr>
     = (Some (UnboundLocalError ''automation''), [StError PleaseUploadCsv])"
  by (simp add: main_def main_try_def main_finally_def main_except_def)

end
